theory Spec2Isabelle
  imports Complex_Main "HOL-Library.AList"
begin

section \<open>Block-size optimisation: \<open>optimize_fft_size\<close>\<close>

text \<open>
  The source searches upwards from \<open>n\<close> for a number that the two inner loops reduce
  below 2:
  \<^verbatim>\<open>
  def optimize_fft_size(n):
      orig_n=n
      while True:
          n=orig_n
          while (n%2)==0:
              n//=2
          while (n%3)==0:
              n//=3
          if n<2:
              break
          orig_n+=1
      return orig_n
  \<close>
  Python's \<open>%\<close> and \<open>//\<close> on integers are floor modulus and floor division, as
  \<open>mod\<close> and \<open>div\<close> on \<open>int\<close> are. None of the three loops has an a-priori
  bound, so each is a partial function in the option monad: \<open>None\<close> is a run that never
  returns. \<open>while_divisible p\<close> is the inner loop \<open>while (n%p)==0: n//=p\<close>, which
  the source writes once for \<open>p = 2\<close> and once for \<open>p = 3\<close>.
\<close>

partial_function (option) while_divisible :: "int \<Rightarrow> int \<Rightarrow> int option" where
  "while_divisible p n = (if n mod p = 0 then while_divisible p (n div p) else Some n)"

partial_function (option) optimize_fft_size :: "int \<Rightarrow> int option" where
  "optimize_fft_size orig_n =
     (case while_divisible 2 orig_n of
        None \<Rightarrow> None
      | Some n2 \<Rightarrow>
          (case while_divisible 3 n2 of
             None \<Rightarrow> None
           | Some n3 \<Rightarrow> if n3 < 2 then Some orig_n else optimize_fft_size (orig_n + 1)))"

declare while_divisible.simps [code] optimize_fft_size.simps [code]

text \<open>
  The test the outer loop applies to a candidate: dividing by 2 while divisible, then by 3
  while divisible, leaves a value below 2.
\<close>

definition reduces_below_2 :: "int \<Rightarrow> bool" where
  "reduces_below_2 m =
     (case while_divisible 2 m of
        None \<Rightarrow> False
      | Some n2 \<Rightarrow> (case while_divisible 3 n2 of None \<Rightarrow> False | Some n3 \<Rightarrow> n3 < 2))"

section \<open>The block-pairing plan: \<open>get_block_mixes\<close>\<close>

text \<open>
  \<^verbatim>\<open>
  def get_block_mixes(n_blocks):
      pos=defaultdict(lambda:{})
      for j in range(n_blocks):
          for i in range(n_blocks):
              val=(min(i,j),max(i,j))
              if val not in pos[i+j]:
                  pos[i+j][val]=0
              pos[i+j][val]+=1
      result=[v for k,v in pos.items()]
      return result
  \<close>
  Python dictionaries iterate in insertion order, and the result lists the groups in the
  order in which their keys entered \<open>pos\<close>. Both dictionaries are therefore association
  lists in insertion order: \<open>AList.update\<close> overwrites the value of a key that is present
  where it stands and appends a key that is new, as assignment to a dictionary entry does.
  Block indices come from \<open>range\<close> and are natural numbers.
\<close>

type_synonym block_pair = "nat \<times> nat"
type_synonym mix_group = "(block_pair \<times> nat) list"
type_synonym pos_dict = "(nat \<times> mix_group) list"

text \<open>
  Reading \<open>pos[k]\<close> on the \<open>defaultdict\<close> inserts an empty dictionary under a
  missing key.
\<close>

definition pos_access :: "pos_dict \<Rightarrow> nat \<Rightarrow> pos_dict" where
  "pos_access pos k = (case map_of pos k of None \<Rightarrow> AList.update k [] pos | Some g \<Rightarrow> pos)"

text \<open>
  The body of the inner loop for one ordered pair \<open>(j, i)\<close>. Both uses of \<open>the\<close>
  read a key that the line before has made present (\<open>pos[i+j]\<close> after the access,
  \<open>val\<close> after the initialisation to 0), as the source relies on.
\<close>

definition pair_step :: "nat \<Rightarrow> nat \<Rightarrow> pos_dict \<Rightarrow> pos_dict" where
  "pair_step j i pos =
     (let val = (min i j, max i j);
          pos1 = pos_access pos (i + j);
          g = the (map_of pos1 (i + j));
          g1 = (if map_of g val = None then AList.update val 0 g else g);
          g2 = AList.update val (the (map_of g1 val) + 1) g1
      in AList.update (i + j) g2 pos1)"

definition inner_loop :: "nat \<Rightarrow> nat \<Rightarrow> pos_dict \<Rightarrow> pos_dict" where
  "inner_loop n_blocks j pos = fold (pair_step j) [0..<n_blocks] pos"

definition get_block_mixes :: "nat \<Rightarrow> mix_group list" where
  "get_block_mixes n_blocks = map snd (fold (inner_loop n_blocks) [0..<n_blocks] [])"

subsection \<open>Notions used to state and prove the plan's properties\<close>

text \<open>
  The group stored under a sum (empty when the key is absent), the multiplicity stored for
  a pair (0 when absent), the sum of a group's multiplicities, the loop nest as one pass
  over a list of ordered pairs, the ordered pairs that bump a given entry, and the
  invariant that every stored group has distinct keys and positive multiplicities.
\<close>

definition group_of :: "pos_dict \<Rightarrow> nat \<Rightarrow> mix_group" where
  "group_of pos s = (case map_of pos s of None \<Rightarrow> [] | Some g \<Rightarrow> g)"

definition count_of :: "mix_group \<Rightarrow> block_pair \<Rightarrow> nat" where
  "count_of g v = (case map_of g v of None \<Rightarrow> 0 | Some c \<Rightarrow> c)"

definition group_total :: "mix_group \<Rightarrow> nat" where
  "group_total g = sum_list (map snd g)"

definition step_pairs :: "(nat \<times> nat) list \<Rightarrow> pos_dict \<Rightarrow> pos_dict" where
  "step_pairs ps pos = fold (\<lambda>(j, i). pair_step j i) ps pos"

definition hits :: "nat \<Rightarrow> block_pair \<Rightarrow> nat \<times> nat \<Rightarrow> bool" where
  "hits s v p = (case p of (j, i) \<Rightarrow> i + j = s \<and> (min i j, max i j) = v)"

definition groups_ok :: "pos_dict \<Rightarrow> bool" where
  "groups_ok pos \<longleftrightarrow>
     (\<forall>s g. map_of pos s = Some g \<longrightarrow>
        distinct (map fst g) \<and> (\<forall>v c. map_of g v = Some c \<longrightarrow> 0 < c))"

section \<open>Block segmentation\<close>

text \<open>
  The number of blocks (\<open>process_audiofile\<close>, lines 173 to 176):
  \<^verbatim>\<open>
  n_blocks=nsamples//input_block_size_samples+1
  #force adding extra zero block to flush out all the samples
  n_blocks+=1
  \<close>
  Python raises \<open>ZeroDivisionError\<close> for a block size of 0; that is the value \<open>None\<close>.
\<close>

definition n_blocks_of :: "int \<Rightarrow> int \<Rightarrow> int option" where
  "n_blocks_of nsamples input_block_size_samples =
     (if input_block_size_samples = 0 then None
      else Some ((nsamples div input_block_size_samples + 1) + 1))"

text \<open>
  The loop \<open>for block_k in range(n_blocks): inbuf=f.readframes(input_block_size_samples)\<close>:
  each iteration takes the next \<open>input_block_size_samples\<close> frames of the stream, or what
  is left of it.
\<close>

fun read_blocks :: "nat \<Rightarrow> nat \<Rightarrow> 'f list \<Rightarrow> 'f list list" where
  "read_blocks 0 input_block_size_samples frames = []"
| "read_blocks (Suc k) input_block_size_samples frames =
     take input_block_size_samples frames
       # read_blocks k input_block_size_samples (drop input_block_size_samples frames)"

subsection \<open>The streaming high-pass filter\<close>

text \<open>
  \<^verbatim>\<open>
  b20hz, a20hz = signal.butter(3,20.0/(float(sample_rate)/2.0),btype="highpass")
  zi20=[]
  for nchannel in range(nchannels):
      zi20.append(signal.lfilter_zi(b20hz, a20hz))
  for block_k in range(n_blocks):
      ...
      for nchannel in range(nchannels):
          ...
          smp, zi20[nchannel] = signal.lfilter(b20hz, a20hz, smp, zi=zi20[nchannel])
  \<close>
  \<open>signal.butter\<close> of order 3 returns four numerator and four denominator coefficients
  with \<open>a[0] = 1\<close>; they are parameters here. \<open>signal.lfilter\<close> is scipy's
  direct-form II transposed filter: with three delays \<open>z\<close>, one input sample \<open>x\<close>
  gives the output \<open>y = z\<^sub>0 + b\<^sub>0 x\<close> and the delays
  \<open>z\<^sub>0' = z\<^sub>1 + b\<^sub>1 x - a\<^sub>1 y\<close>, \<open>z\<^sub>1' = z\<^sub>2 + b\<^sub>2 x - a\<^sub>2 y\<close>,
  \<open>z\<^sub>2' = b\<^sub>3 x - a\<^sub>3 y\<close>; called with \<open>zi\<close> it returns the outputs and the
  final delays. The sample type is left open (any type with \<open>+\<close>, \<open>-\<close>, \<open>*\<close>, no law
  assumed), so what is proved of the filter holds for float64 arithmetic as it stands.
\<close>

type_synonym 'a coeffs = "'a \<times> 'a \<times> 'a \<times> 'a"
type_synonym 'a delays = "'a \<times> 'a \<times> 'a"

fun lfilter_step ::
  "('a::{plus,minus,times}) coeffs \<Rightarrow> 'a coeffs \<Rightarrow> 'a delays \<Rightarrow> 'a \<Rightarrow> 'a \<times> 'a delays" where
  "lfilter_step (b0, b1, b2, b3) (a0, a1, a2, a3) (z0, z1, z2) x =
     (let y = z0 + b0 * x
      in (y, (z1 + b1 * x - a1 * y, z2 + b2 * x - a2 * y, b3 * x - a3 * y)))"

fun lfilter ::
  "('a::{plus,minus,times}) coeffs \<Rightarrow> 'a coeffs \<Rightarrow> 'a list \<Rightarrow> 'a delays \<Rightarrow> 'a list \<times> 'a delays" where
  "lfilter b a [] zi = ([], zi)"
| "lfilter b a (x # xs) zi =
     (let (y, z) = lfilter_step b a zi x;
          (ys, zf) = lfilter b a xs z
      in (y # ys, zf))"

text \<open>
  The segmentation loop as far as the filter is concerned. A block is the list of its
  channels' sample vectors (\<open>smp\<close> for each \<open>nchannel\<close>); \<open>zi20\<close> holds one filter
  state per channel and each call replaces the entry of its channel.
\<close>

fun segment_filter ::
  "('a::{plus,minus,times}) coeffs \<Rightarrow> 'a coeffs \<Rightarrow> nat \<Rightarrow> 'a delays list \<Rightarrow> 'a list list list
     \<Rightarrow> 'a list list list \<times> 'a delays list" where
  "segment_filter b20hz a20hz nchannels zi20 [] = ([], zi20)"
| "segment_filter b20hz a20hz nchannels zi20 (block # blocks) =
     (let r = map (\<lambda>nchannel. lfilter b20hz a20hz (block ! nchannel) (zi20 ! nchannel)) [0..<nchannels];
          (ys, zf) = segment_filter b20hz a20hz nchannels (map snd r) blocks
      in (map fst r # ys, zf))"

section \<open>Spectrum envelope\<close>











section \<open>Spectral mixing\<close>

text \<open>
  The accumulation of one group's spectrum for one channel (\<open>process_audiofile\<close>, lines
  240 to 247):
  \<^verbatim>\<open>
  sum_freqs=np.zeros(output_block_size_samples//2+1,dtype=np.complex64)
  for ((b1_k,b2_k),mul) in block_mix.items():
      if options.limit_blocks>0:
          if abs(b1_k-b2_k)>options.limit_blocks:
              continue
      freq1=np.load(get_tmpfft_filename(tmpdir,b1_k,nchannel))
      freq2=np.load(get_tmpfft_filename(tmpdir,b2_k,nchannel))
      sum_freqs+=(freq1*freq2)*mul
  \<close>
  The temporary files written by the segmentation are a function from block index and
  channel to the stored spectrum. Spectra are lists of complex numbers (complex64 entries
  read as complex numbers); \<open>*\<close> and \<open>+=\<close> on arrays are elementwise.
\<close>

type_synonym spectrum_store = "nat \<Rightarrow> nat \<Rightarrow> complex list"

definition accumulate_pair ::
  "int \<Rightarrow> spectrum_store \<Rightarrow> nat \<Rightarrow> block_pair \<times> nat \<Rightarrow> complex list \<Rightarrow> complex list" where
  "accumulate_pair limit_blocks tmpfft nchannel entry sum_freqs =
     (case entry of ((b1_k, b2_k), mul) \<Rightarrow>
        if limit_blocks > 0 \<and> \<bar>int b1_k - int b2_k\<bar> > limit_blocks then sum_freqs
        else map2 (+) sum_freqs
               (map (\<lambda>z. z * of_nat mul) (map2 (*) (tmpfft b1_k nchannel) (tmpfft b2_k nchannel))))"

definition sum_freqs_of ::
  "int \<Rightarrow> spectrum_store \<Rightarrow> nat \<Rightarrow> nat \<Rightarrow> mix_group \<Rightarrow> complex list" where
  "sum_freqs_of limit_blocks tmpfft output_block_size_samples nchannel block_mix =
     fold (accumulate_pair limit_blocks tmpfft nchannel) block_mix
       (replicate (output_block_size_samples div 2 + 1) 0)"

section \<open>Peak tracking, overlap-add and output\<close>

text \<open>
  Time-domain samples are float32 values in the source; they are read here as real
  numbers, the written samples as integers in the int16 range.
\<close>

subsection \<open>Sizes\<close>

text \<open>
  Lines 137 to 144: \<open>output_block_size_samples\<close> is twice the input block size in mode
  0 and three times in modes 1 and 2; for any other mode the name is unbound at line 157
  and the call fails (\<open>None\<close>). A mixed block is \<open>np.fft.irfft(sum_freqs)\<close> for a
  spectrum of \<open>output_block_size_samples//2+1\<close> bins, and numpy's \<open>irfft\<close> of \<open>m\<close>
  bins has \<open>2*(m-1)\<close> samples.
\<close>

definition output_block_size_samples_of :: "nat \<Rightarrow> nat \<Rightarrow> nat option" where
  "output_block_size_samples_of keep_envelope_mode input_block_size_samples =
     (if keep_envelope_mode = 0 then Some (input_block_size_samples * 2)
      else if keep_envelope_mode = 1 \<or> keep_envelope_mode = 2 then Some (input_block_size_samples * 3)
      else None)"

definition irfft_length :: "nat \<Rightarrow> nat" where
  "irfft_length m = 2 * (m - 1)"

definition mixed_block_length :: "nat \<Rightarrow> nat" where
  "mixed_block_length output_block_size_samples = irfft_length (output_block_size_samples div 2 + 1)"

subsection \<open>The global peak\<close>

text \<open>
  Lines 230 and 260 to 261, run for every group and every channel:
  \<^verbatim>\<open>
  max_smp=np.float32(1e-6)
  ...
      max_current_smp=max(np.amax(smp),-np.amin(smp))
      max_smp=max(max_current_smp,max_smp)
  \<close>
  The argument of \<open>track_peak\<close> lists, for every group, the channels' mixed sample
  vectors (\<open>multichannel_smps\<close>). \<open>np.amax\<close> raises on an empty vector, which no run
  produces; \<open>Max\<close> is used on non-empty vectors only.
\<close>

definition max_current_smp :: "real list \<Rightarrow> real" where
  "max_current_smp smp = max (Max (set smp)) (- Min (set smp))"

definition track_peak :: "real list list list \<Rightarrow> real" where
  "track_peak mixed =
     fold (\<lambda>multichannel_smps max_smp.
             fold (\<lambda>smp max_smp. max (max_current_smp smp) max_smp) multichannel_smps max_smp)
          mixed (1 / 1000000)"

text \<open>
  Line 265, \<open>np.dstack(multichannel_smps)[0]\<close>: the stored array has one row per sample
  index and one column per channel.
\<close>

type_synonym array2 = "real list list"

definition dstack0 :: "real list list \<Rightarrow> array2" where
  "dstack0 multichannel_smps = transpose multichannel_smps"

subsection \<open>The output loop\<close>

text \<open>
  Lines 277 to 292:
  \<^verbatim>\<open>
  old_buf=[]
  for k in range(len(block_mixes)):
      current_smps=np.float32(np.load(get_tmpsmp_filename(tmpdir,k))*(0.7/max_smp))
      current_buf=current_smps[:input_block_size_samples]
      result_buf=current_buf
      old_buf=[o for o in old_buf if o.shape[0]>=input_block_size_samples]
      for oldk,old in enumerate(old_buf):
          result_buf+=old[:input_block_size_samples]
          old_buf[oldk]=old[input_block_size_samples:]
      old_buf.append(current_smps[input_block_size_samples:])
      output_buf=np.int16(np.clip(result_buf,-1.0,1.0)*32767.0).flatten().tostring()
      f.writeframes(output_buf)
  \<close>
  \<open>add_rows\<close> is \<open>+=\<close> on two arrays of the same shape. The in-place addition
  changes the first rows of \<open>current_smps\<close> only, so the tail appended to \<open>old_buf\<close>
  is the tail as loaded. numpy refuses \<open>+=\<close> on arrays of different shapes; the
  statements below assume blocks of at least \<open>input_block_size_samples\<close> rows and rows
  of equal width, where the shapes agree.
\<close>

definition add_rows :: "array2 \<Rightarrow> array2 \<Rightarrow> array2" where
  "add_rows x y = map2 (map2 (+)) x y"

definition output_step :: "nat \<Rightarrow> array2 list \<Rightarrow> array2 \<Rightarrow> array2 \<times> array2 list" where
  "output_step input_block_size_samples old_buf current_smps =
     (let current_buf = take input_block_size_samples current_smps;
          old_buf1 = filter (\<lambda>old. length old \<ge> input_block_size_samples) old_buf;
          result_buf = fold (\<lambda>old r. add_rows r (take input_block_size_samples old)) old_buf1 current_buf;
          old_buf2 = map (drop input_block_size_samples) old_buf1
      in (result_buf, old_buf2 @ [drop input_block_size_samples current_smps]))"

definition scale_block :: "real \<Rightarrow> array2 \<Rightarrow> array2" where
  "scale_block max_smp smps = map (map (\<lambda>x. x * (0.7 / max_smp))) smps"

fun output_hops :: "nat \<Rightarrow> real \<Rightarrow> array2 list \<Rightarrow> array2 list \<Rightarrow> array2 list" where
  "output_hops input_block_size_samples max_smp old_buf [] = []"
| "output_hops input_block_size_samples max_smp old_buf (smps # rest) =
     (let current_smps = scale_block max_smp smps;
          (result_buf, old_buf') = output_step input_block_size_samples old_buf current_smps
      in result_buf # output_hops input_block_size_samples max_smp old_buf' rest)"

text \<open>
  \<open>np.clip(x, -1, 1)\<close> is \<open>minimum(maximum(x, -1), 1)\<close>; the conversion of a float in
  the int16 range to \<open>np.int16\<close> drops the fractional part (towards zero); \<open>flatten\<close>
  lists the rows one after the other.
\<close>

definition clip :: "real \<Rightarrow> real" where
  "clip x = min (max x (-1)) 1"

definition to_int16 :: "real \<Rightarrow> int" where
  "to_int16 x = (if 0 \<le> x then \<lfloor>x\<rfloor> else \<lceil>x\<rceil>)"

definition output_buf :: "array2 \<Rightarrow> int list" where
  "output_buf result_buf = concat (map (map (\<lambda>x. to_int16 (clip x * 32767))) result_buf)"

definition written_frames :: "nat \<Rightarrow> real \<Rightarrow> array2 list \<Rightarrow> int list list" where
  "written_frames input_block_size_samples max_smp tmpsmp =
     map output_buf (output_hops input_block_size_samples max_smp [] tmpsmp)"

text \<open>
  Mixing stage and output stage together: the peak is taken over the mixed vectors, the
  arrays are stacked and stored, and the output loop reads them back.
\<close>

definition process_output :: "nat \<Rightarrow> real list list list \<Rightarrow> int list list" where
  "process_output input_block_size_samples mixed =
     written_frames input_block_size_samples (track_peak mixed) (map dstack0 mixed)"

subsection \<open>Notions used to state and prove the output properties\<close>

text \<open>
  An array all of whose rows have a given width, an array that is zero everywhere, the
  set of all samples of all mixed vectors, and the int16 value written for a mixed sample
  that reaches the output with nothing added to it.
\<close>

definition wide :: "nat \<Rightarrow> array2 \<Rightarrow> bool" where
  "wide n a \<longleftrightarrow> (\<forall>row\<in>set a. length row = n)"

definition all_zero :: "array2 \<Rightarrow> bool" where
  "all_zero a \<longleftrightarrow> (\<forall>row\<in>set a. \<forall>x\<in>set row. x = 0)"

definition samples_of :: "real list list list \<Rightarrow> real set" where
  "samples_of mixed = (\<Union>m\<in>set mixed. \<Union>smp\<in>set m. set smp)"

definition quantised :: "real \<Rightarrow> real \<Rightarrow> int" where
  "quantised max_smp x = to_int16 (clip (x * (0.7 / max_smp)) * 32767)"

section \<open>Properties of the block-size optimisation\<close>

lemma while_divisible_zero: "while_divisible p 0 = None"
proof -
  have "x \<noteq> 0" if "while_divisible p x = Some y" for x y
  proof (rule while_divisible.raw_induct[where P="\<lambda>_ x _. x \<noteq> 0" and p=p and n=x and y=y])
    show "while_divisible p x = Some y" by fact
  next
    fix f :: "int \<Rightarrow> int \<Rightarrow> int option" and q n r
    assume IH: "\<And>n b y. f n b = Some y \<Longrightarrow> b \<noteq> 0"
      and eq: "(if n mod q = 0 then f q (n div q) else Some n) = Some r"
    show "n \<noteq> 0"
    proof
      assume "n = 0"
      with eq have "f q 0 = Some r" by simp
      from IH[OF this] show False by simp
    qed
  qed
  then show ?thesis by (cases "while_divisible p 0") auto
qed

lemma while_divisible_pos:
  assumes "2 \<le> p" "0 < n"
  shows "\<exists>r k. while_divisible p n = Some r \<and> 0 < r \<and> r \<le> n \<and> r mod p \<noteq> 0 \<and> n = r * p ^ k"
  using assms(2)
proof (induction "nat n" arbitrary: n rule: less_induct)
  case less
  show ?case
  proof (cases "n mod p = 0")
    case False
    then have "while_divisible p n = Some n"
      by (subst while_divisible.simps) simp
    with False less.prems show ?thesis
      by (intro exI[of _ n] exI[of _ 0]) simp
  next
    case True
    then have n: "n = n div p * p" by auto
    have dpos: "0 < n div p"
      using less.prems assms(1) True
      by (metis div_neg_pos_less0 linorder_neqE_linordered_idom mult.commute n
    not_numeral_le_zero order.asym pos_imp_zdiv_pos_iff zero_less_mult_pos
    zero_less_numeral)
    have dlt: "n div p < n" using less.prems assms(1) by (simp add: int_div_less_self)
    from less.hyps[of "n div p"] dpos dlt obtain r k where
      rk: "while_divisible p (n div p) = Some r" "0 < r" "r \<le> n div p" "r mod p \<noteq> 0" "n div p = r * p ^ k"
      by fastforce
    have "while_divisible p n = Some r"
      using True rk(1) by (subst while_divisible.simps) simp
    moreover have "n = r * p ^ Suc k" using n rk(5) by simp
    moreover have "r \<le> n" using rk(3) dlt by linarith
    ultimately show ?thesis using rk(2,4) by blast
  qed
qed

lemma while_divisible_strip:
  assumes "2 \<le> p" "0 < r"
  shows "while_divisible p (p ^ a * r) = while_divisible p r"
proof (induction a)
  case 0
  show ?case by simp
next
  case (Suc a)
  have nz: "p \<noteq> 0" using assms(1) by simp
  have "while_divisible p (p ^ Suc a * r) = while_divisible p (p * (p ^ a * r))"
    by (simp add: mult.assoc)
  also have "\<dots> = while_divisible p (p ^ a * r)"
    using nz by (subst while_divisible.simps) simp
  finally show ?case using Suc.IH by simp
qed

lemma while_divisible_stop:
  "n mod p \<noteq> 0 \<Longrightarrow> while_divisible p n = Some n"
  by (subst while_divisible.simps) simp

lemma reduces_below_2_smooth: "reduces_below_2 (2 ^ a * 3 ^ b)"
proof -
  have "odd ((3::int) ^ b)" by simp
  then have o: "(3::int) ^ b mod 2 \<noteq> 0" by presburger
  have "while_divisible 2 (2 ^ a * 3 ^ b) = while_divisible 2 (3 ^ b)"
    by (rule while_divisible_strip) simp_all
  also have "\<dots> = Some (3 ^ b)" using o by (rule while_divisible_stop)
  finally have s2: "while_divisible 2 (2 ^ a * 3 ^ b) = Some (3 ^ b)" .
  have "while_divisible 3 (3 ^ b * 1) = while_divisible 3 1"
    by (rule while_divisible_strip) simp_all
  also have "\<dots> = Some 1" by (rule while_divisible_stop) simp
  finally have s3: "while_divisible 3 (3 ^ b) = Some 1" by simp
  show ?thesis by (simp add: reduces_below_2_def s2 s3)
qed

lemma reduces_below_2_imp_smooth:
  assumes "0 < m" "reduces_below_2 m"
  shows "\<exists>a b. m = 2 ^ a * 3 ^ b"
proof -
  from while_divisible_pos[of 2 m] assms(1) obtain r2 k where
    r2: "while_divisible 2 m = Some r2" "0 < r2" "m = r2 * 2 ^ k" by auto
  from while_divisible_pos[of 3 r2] r2(2) obtain r3 j where
    r3: "while_divisible 3 r2 = Some r3" "0 < r3" "r2 = r3 * 3 ^ j" by auto
  from assms(2) r2(1) r3(1) have "r3 < 2" by (simp add: reduces_below_2_def)
  with r3(2) have "r3 = 1" by simp
  with r2(3) r3(3) have "m = 2 ^ k * 3 ^ j" by simp
  then show ?thesis by blast
qed

lemma reduces_below_2_iff:
  "0 < m \<Longrightarrow> reduces_below_2 m \<longleftrightarrow> (\<exists>a b. m = 2 ^ a * 3 ^ b)"
  using reduces_below_2_imp_smooth reduces_below_2_smooth by blast

lemma optimize_fft_size_stop:
  assumes "0 < n" "reduces_below_2 n"
  shows "optimize_fft_size n = Some n"
proof -
  from while_divisible_pos[of 2 n] assms(1) obtain r2 where
    r2: "while_divisible 2 n = Some r2" "0 < r2" by auto
  from while_divisible_pos[of 3 r2] r2(2) obtain r3 where
    r3: "while_divisible 3 r2 = Some r3" by auto
  from assms(2) r2(1) r3 have "r3 < 2" by (simp add: reduces_below_2_def)
  then show ?thesis using r2(1) r3 by (subst optimize_fft_size.simps) simp
qed

lemma optimize_fft_size_next:
  assumes "0 < n" "\<not> reduces_below_2 n"
  shows "optimize_fft_size n = optimize_fft_size (n + 1)"
proof -
  from while_divisible_pos[of 2 n] assms(1) obtain r2 where
    r2: "while_divisible 2 n = Some r2" "0 < r2" by auto
  from while_divisible_pos[of 3 r2] r2(2) obtain r3 where
    r3: "while_divisible 3 r2 = Some r3" by auto
  from assms(2) r2(1) r3 have "\<not> r3 < 2" by (simp add: reduces_below_2_def)
  then show ?thesis using r2(1) r3 by (subst optimize_fft_size.simps) simp
qed

lemma optimize_fft_size_search:
  assumes "0 < n" "n \<le> m" "reduces_below_2 m"
  shows "\<exists>r. optimize_fft_size n = Some r \<and> n \<le> r \<and> r \<le> m \<and> reduces_below_2 r
           \<and> (\<forall>k. n \<le> k \<and> k < r \<longrightarrow> \<not> reduces_below_2 k)"
  using assms(1,2)
proof (induction "nat (m - n)" arbitrary: n)
  case 0
  then have "n = m" by simp
  with assms(3) 0 show ?case using optimize_fft_size_stop[of n] by auto
next
  case (Suc d)
  show ?case
  proof (cases "reduces_below_2 n")
    case True
    with Suc.prems show ?thesis using optimize_fft_size_stop[of n] by auto
  next
    case False
    from Suc.hyps(2) have lt: "n < m" by linarith
    have d: "d = nat (m - (n + 1))" using Suc.hyps(2) by linarith
    from Suc.hyps(1)[OF d] Suc.prems lt obtain r where
      r: "optimize_fft_size (n + 1) = Some r" "n + 1 \<le> r" "r \<le> m" "reduces_below_2 r"
         "\<forall>k. n + 1 \<le> k \<and> k < r \<longrightarrow> \<not> reduces_below_2 k"
      by force
    have "optimize_fft_size n = Some r"
      using optimize_fft_size_next[OF Suc.prems(1) False] r(1) by simp
    moreover have "\<forall>k. n \<le> k \<and> k < r \<longrightarrow> \<not> reduces_below_2 k"
    proof (intro allI impI)
      fix k assume k: "n \<le> k \<and> k < r"
      show "\<not> reduces_below_2 k"
      proof (cases "k = n")
        case True then show ?thesis using False by simp
      next
        case False
        with k have "n + 1 \<le> k \<and> k < r" by linarith
        with r(5) show ?thesis by blast
      qed
    qed
    ultimately show ?thesis using r(2,3,4) by (intro exI[of _ r]) simp
  qed
qed

lemma smooth_above: "0 < n \<Longrightarrow> n \<le> 2 ^ nat n * 3 ^ 0"
proof -
  assume "0 < n"
  have "int (nat n) < 2 ^ nat n" by (rule of_nat_less_two_power)
  with \<open>0 < n\<close> show ?thesis by simp
qed

text \<open>
  Claim C2. For every integer \<open>n \<ge> 1\<close>, \<open>optimize_fft_size n\<close> returns the smallest
  \<open>m \<ge> n\<close> that repeated division by 2 and then by 3 reduces below 2, equivalently
  the smallest \<open>m \<ge> n\<close> of the form \<open>2\<^sup>a * 3\<^sup>b\<close>; it returns \<open>n\<close> itself when
  \<open>n\<close> already has this property.
\<close>

theorem optimize_fft_size_smallest:
  assumes "1 \<le> n"
  shows "\<exists>m. optimize_fft_size n = Some m \<and> n \<le> m
           \<and> reduces_below_2 m \<and> (\<exists>a b. m = 2 ^ a * 3 ^ b)
           \<and> (\<forall>k. n \<le> k \<and> k < m \<longrightarrow>
                  \<not> reduces_below_2 k \<and> \<not> (\<exists>a b. k = 2 ^ a * 3 ^ b))
           \<and> (reduces_below_2 n \<or> (\<exists>a b. n = 2 ^ a * 3 ^ b) \<longrightarrow> m = n)"
proof -
  have pos: "0 < n" using assms by simp
  from optimize_fft_size_search[OF pos smooth_above[OF pos] reduces_below_2_smooth]
  obtain r where r: "optimize_fft_size n = Some r" "n \<le> r" "reduces_below_2 r"
      "\<forall>k. n \<le> k \<and> k < r \<longrightarrow> \<not> reduces_below_2 k" by blast
  have rpos: "0 < r" using pos r(2) by simp
  have sm: "\<exists>a b. r = 2 ^ a * 3 ^ b" using reduces_below_2_imp_smooth[OF rpos r(3)] .
  have least: "\<forall>k. n \<le> k \<and> k < r \<longrightarrow>
                  \<not> reduces_below_2 k \<and> \<not> (\<exists>a b. k = 2 ^ a * 3 ^ b)"
    using r(4) reduces_below_2_smooth by blast
  have same: "reduces_below_2 n \<or> (\<exists>a b. n = 2 ^ a * 3 ^ b) \<longrightarrow> r = n"
    using r(1) optimize_fft_size_stop[OF pos] reduces_below_2_smooth by auto
  show ?thesis using r(1,2,3) sm least same by blast
qed

theorem optimize_fft_size_smallest_witness:
  "(1::int) \<le> 5 \<and> optimize_fft_size 5 = Some 6 \<and> optimize_fft_size 6 = Some 6
     \<and> reduces_below_2 6 \<and> \<not> reduces_below_2 5"
proof -
  have h: "(1::int) \<le> 5" by simp
  have e: "optimize_fft_size 5 = Some 6" "optimize_fft_size 6 = Some 6" "reduces_below_2 6" "\<not> reduces_below_2 5" by code_simp+
  from optimize_fft_size_smallest[OF h] e show ?thesis by simp
qed

text \<open>
  Claim C10. For every integer \<open>n \<ge> 1\<close> the search terminates (it returns a value);
  outside this precondition termination is not guaranteed: for \<open>n = 0\<close> the first inner
  loop never leaves \<open>0\<close>, and the call does not return.
\<close>

theorem optimize_fft_size_terminates:
  "(1 \<le> n \<longrightarrow> (\<exists>m. optimize_fft_size n = Some m)) \<and> optimize_fft_size 0 = None"
proof
  show "1 \<le> n \<longrightarrow> (\<exists>m. optimize_fft_size n = Some m)"
  proof
    assume "1 \<le> n"
    then have pos: "0 < n" by simp
    from optimize_fft_size_search[OF pos smooth_above[OF pos] reduces_below_2_smooth]
    show "\<exists>m. optimize_fft_size n = Some m" by blast
  qed
  show "optimize_fft_size 0 = None"
    by (subst optimize_fft_size.simps) (simp add: while_divisible_zero)
qed

theorem optimize_fft_size_terminates_witness:
  "(1::int) \<le> 7 \<and> (\<exists>m. optimize_fft_size 7 = Some m) \<and> optimize_fft_size 0 = None"
  using optimize_fft_size_terminates[of 7] by simp

section \<open>Properties of the block-pairing plan\<close>

lemma pair_step_alt:
  "pair_step j i pos =
     AList.update (i + j)
       (AList.update (min i j, max i j)
          (count_of (group_of pos (i + j)) (min i j, max i j) + 1) (group_of pos (i + j))) pos"
proof (cases "map_of pos (i + j)")
  case None
  then show ?thesis
    by (simp add: pair_step_def pos_access_def group_of_def count_of_def Let_def AList.update_conv')
next
  case (Some g)
  then show ?thesis
    by (cases "map_of g (min i j, max i j)")
       (simp_all add: pair_step_def pos_access_def group_of_def count_of_def Let_def AList.update_conv')
qed

subsection \<open>The groups appear in the order of their sums\<close>

lemma pair_step_keys:
  "map fst (pair_step j i pos) =
     (if i + j \<in> set (map fst pos) then map fst pos else map fst pos @ [i + j])"
  by (simp only: pair_step_alt AList.update_keys)

lemma row_keys:
  assumes "map fst pos = [0..<K]" "j \<le> K"
  shows "map fst (fold (pair_step j) [0..<m] pos) = [0..<max K (j + m)]"
proof (induction m)
  case 0
  with assms show ?case by (simp add: max_absorb1)
next
  case (Suc m)
  let ?pos' = "fold (pair_step j) [0..<m] pos"
  have step: "fold (pair_step j) [0..<Suc m] pos = pair_step j m ?pos'" by simp
  show ?case
  proof (cases "m + j < max K (j + m)")
    case True
    then have "max K (j + Suc m) = max K (j + m)" by (simp add: max_def split: if_splits)
    with True Suc.IH show ?thesis by (simp only: step pair_step_keys) simp
  next
    case False
    then have "max K (j + m) = m + j" "max K (j + Suc m) = Suc (m + j)"
      by (simp_all add: max_def split: if_splits)
    with Suc.IH show ?thesis by (simp only: step pair_step_keys) simp
  qed
qed

lemma outer_keys:
  assumes "1 \<le> N" "j \<le> N"
  shows "map fst (fold (inner_loop N) [0..<j] []) = [0..<(if j = 0 then 0 else j + N - 1)]"
  using assms(2)
proof (induction j)
  case 0
  show ?case by simp
next
  case (Suc j)
  let ?pos = "fold (inner_loop N) [0..<j] []"
  have IH: "map fst ?pos = [0..<(if j = 0 then 0 else j + N - 1)]"
    using Suc by simp
  have le: "j \<le> (if j = 0 then 0 else j + N - 1)" using assms(1) by auto
  have "map fst (inner_loop N j ?pos) = map fst (fold (pair_step j) [0..<N] ?pos)"
    by (simp only: inner_loop_def)
  also have "\<dots> = [0..<max (if j = 0 then 0 else j + N - 1) (j + N)]"
    by (rule row_keys[OF IH le])
  finally have "map fst (inner_loop N j ?pos) = [0..<max (if j = 0 then 0 else j + N - 1) (j + N)]" .
  moreover have "max (if j = 0 then 0 else j + N - 1) (j + N) = Suc j + N - 1"
    using assms(1) by auto
  ultimately show ?case by simp
qed

lemma block_mixes_keys:
  assumes "1 \<le> N"
  shows "map fst (fold (inner_loop N) [0..<N] []) = [0..<2 * N - 1]"
proof -
  have "(if N = 0 then 0 else N + N - 1) = 2 * N - 1" using assms by auto
  with outer_keys[OF assms, of N] show ?thesis by simp
qed

lemma alist_nth_of_keys:
  assumes "map fst al = [0..<K]" "k < K"
  shows "map_of al k = Some (snd (al ! k))"
proof -
  have len: "length al = K" using assms(1) by (metis length_map length_upt minus_nat.diff_0)
  have d: "distinct (map fst al)" using assms(1) by simp
  have "fst (al ! k) = k" using assms len by (metis add_0 nth_map nth_upt)
  then have "(k, snd (al ! k)) \<in> set al" using len assms(2) by (metis nth_mem prod.collapse)
  with d show ?thesis by simp
qed

subsection \<open>Multiplicities count the ordered pairs\<close>

lemma loops_as_pairs:
  "fold (inner_loop N) js pos = step_pairs (List.product js [0..<N]) pos"
proof (induction js arbitrary: pos)
  case Nil
  show ?case by (simp add: step_pairs_def)
next
  case (Cons j js)
  have "inner_loop N j pos = step_pairs (map (Pair j) [0..<N]) pos"
    by (simp add: inner_loop_def step_pairs_def fold_map comp_def)
  then show ?case using Cons.IH by (simp add: step_pairs_def)
qed

lemma count_of_update:
  "count_of (AList.update v c g) w = (if w = v then c else count_of g w)"
  by (simp add: count_of_def AList.update_conv')

lemma group_of_update:
  "group_of (AList.update s g pos) t = (if t = s then g else group_of pos t)"
  by (simp add: group_of_def AList.update_conv')

lemma pair_step_count:
  "count_of (group_of (pair_step j i pos) s) v =
     count_of (group_of pos s) v + (if hits s v (j, i) then 1 else 0)"
  by (simp add: pair_step_alt group_of_update count_of_update hits_def)

lemma step_pairs_count:
  "count_of (group_of (step_pairs ps pos) s) v =
     count_of (group_of pos s) v + length (filter (hits s v) ps)"
proof (induction ps arbitrary: pos)
  case Nil
  show ?case by (simp add: step_pairs_def)
next
  case (Cons p ps)
  obtain j i where p: "p = (j, i)" by (cases p)
  have "step_pairs (p # ps) pos = step_pairs ps (pair_step j i pos)"
    by (simp add: step_pairs_def p)
  then show ?case using Cons.IH[of "pair_step j i pos"]
    by (simp add: pair_step_count p)
qed

lemma groups_ok_pair_step:
  assumes "groups_ok pos"
  shows "groups_ok (pair_step j i pos)"
proof -
  have g: "distinct (map fst (group_of pos s)) \<and> (\<forall>v c. map_of (group_of pos s) v = Some c \<longrightarrow> 0 < c)" for s
    using assms by (cases "map_of pos s") (auto simp: groups_ok_def group_of_def)
  show ?thesis
    unfolding groups_ok_def pair_step_alt
    using assms g[of "i + j"]
    by (auto simp: AList.update_conv' AList.distinct_update groups_ok_def split: if_splits)
qed

lemma groups_ok_step_pairs:
  "groups_ok pos \<Longrightarrow> groups_ok (step_pairs ps pos)"
proof (induction ps arbitrary: pos)
  case Nil
  then show ?case by (simp add: step_pairs_def)
next
  case (Cons p ps)
  obtain j i where p: "p = (j, i)" by (cases p)
  have "step_pairs (p # ps) pos = step_pairs ps (pair_step j i pos)"
    by (simp add: step_pairs_def p)
  then show ?case using Cons groups_ok_pair_step by simp
qed

lemma groups_ok_empty: "groups_ok []"
  by (simp add: groups_ok_def)

subsection \<open>Sums of multiplicities\<close>

lemma alist_update_sum:
  assumes "f x = f (case map_of al k of None \<Rightarrow> d | Some y \<Rightarrow> y) + (1::nat)" "f d = 0"
  shows "sum_list (map (\<lambda>p. f (snd p)) (AList.update k x al)) = sum_list (map (\<lambda>p. f (snd p)) al) + 1"
  using assms(1)
proof (induction al)
  case Nil
  with assms(2) show ?case by simp
next
  case (Cons p al)
  then show ?case by (cases p) (auto split: if_splits)
qed

lemma group_total_bump:
  "group_total (AList.update v (Suc (count_of g v)) g) = Suc (group_total g)"
  unfolding group_total_def
  using alist_update_sum[where f = "\<lambda>c. c" and x = "Suc (count_of g v)" and al = g and k = v and d = 0]
  by (simp add: count_of_def)

lemma pair_step_group_total:
  "group_total (group_of (pair_step j i pos) s) =
     group_total (group_of pos s) + (if i + j = s then 1 else 0)"
  by (simp add: pair_step_alt group_of_update group_total_bump)

lemma step_pairs_group_total:
  "group_total (group_of (step_pairs ps pos) s) =
     group_total (group_of pos s) + length (filter (\<lambda>(j, i). i + j = s) ps)"
proof (induction ps arbitrary: pos)
  case Nil
  show ?case by (simp add: step_pairs_def)
next
  case (Cons p ps)
  obtain j i where p: "p = (j, i)" by (cases p)
  have "step_pairs (p # ps) pos = step_pairs ps (pair_step j i pos)"
    by (simp add: step_pairs_def p)
  then show ?case using Cons.IH[of "pair_step j i pos"]
    by (simp add: pair_step_group_total p)
qed

lemma pair_step_total:
  "sum_list (map (\<lambda>p. group_total (snd p)) (pair_step j i pos)) =
     sum_list (map (\<lambda>p. group_total (snd p)) pos) + 1"
proof -
  have e: "group_total [] = 0" by (simp add: group_total_def)
  show ?thesis
    unfolding pair_step_alt
    by (rule alist_update_sum[where d = "[]"])
       (simp_all add: group_total_bump group_of_def[symmetric] e)
qed

lemma step_pairs_total:
  "sum_list (map (\<lambda>p. group_total (snd p)) (step_pairs ps pos)) =
     sum_list (map (\<lambda>p. group_total (snd p)) pos) + length ps"
proof (induction ps arbitrary: pos)
  case Nil
  show ?case by (simp add: step_pairs_def)
next
  case (Cons p ps)
  obtain j i where p: "p = (j, i)" by (cases p)
  have "step_pairs (p # ps) pos = step_pairs ps (pair_step j i pos)"
    by (simp add: step_pairs_def p)
  then show ?case using Cons.IH[of "pair_step j i pos"]
    by (simp add: pair_step_total)
qed

subsection \<open>Counting the ordered pairs of the loop nest\<close>

lemma hits_count:
  "length (filter (hits s (a, b)) (List.product [0..<N] [0..<N])) =
     (if a \<le> b \<and> b < N \<and> a + b = s then (if a = b then 1 else 2) else 0)"
proof -
  have d: "distinct (List.product [0..<N] [0..<N])" by (simp add: distinct_product)
  have "{p. hits s (a, b) p} \<inter> set (List.product [0..<N] [0..<N]) =
          (if a \<le> b \<and> b < N \<and> a + b = s then {(a, b), (b, a)} else {})"
    by (auto simp: hits_def min_def max_def split: if_splits)
  then show ?thesis
    by (simp add: distinct_length_filter[OF d] card_insert_if)
qed

lemma sum_count:
  "length (filter (\<lambda>(j, i). i + j = s) (List.product [0..<N] [0..<N])) =
     card {(i, j). i < N \<and> j < N \<and> i + j = s}"
proof -
  have d: "distinct (List.product [0..<N] [0..<N])" by (simp add: distinct_product)
  have "{p. (case p of (j, i) \<Rightarrow> i + j = s)} \<inter> set (List.product [0..<N] [0..<N]) =
          {(i, j). i < N \<and> j < N \<and> i + j = s}"
    by auto
  then show ?thesis by (simp add: distinct_length_filter[OF d])
qed

lemma map_of_from_count:
  assumes "\<forall>v c. map_of g v = Some c \<longrightarrow> 0 < c"
  shows "map_of g v = (if count_of g v = 0 then None else Some (count_of g v))"
proof (cases "map_of g v")
  case None
  then show ?thesis by (simp add: count_of_def)
next
  case (Some c)
  with assms have "0 < c" by blast
  with Some show ?thesis by (simp add: count_of_def)
qed

lemma block_mixes_group:
  assumes "1 \<le> N" "k < 2 * N - 1"
  shows "get_block_mixes N ! k = group_of (step_pairs (List.product [0..<N] [0..<N]) []) k"
    and "map_of (step_pairs (List.product [0..<N] [0..<N]) []) k = Some (get_block_mixes N ! k)"
proof -
  let ?P = "fold (inner_loop N) [0..<N] []"
  have keys: "map fst ?P = [0..<2 * N - 1]" by (rule block_mixes_keys[OF assms(1)])
  then have len: "length ?P = 2 * N - 1" by (metis length_map length_upt minus_nat.diff_0)
  have "map_of ?P k = Some (snd (?P ! k))" by (rule alist_nth_of_keys[OF keys assms(2)])
  moreover have "get_block_mixes N ! k = snd (?P ! k)"
    using len assms(2) by (simp add: get_block_mixes_def)
  ultimately have m: "map_of ?P k = Some (get_block_mixes N ! k)" by simp
  then show "map_of (step_pairs (List.product [0..<N] [0..<N]) []) k = Some (get_block_mixes N ! k)"
    by (simp add: loops_as_pairs)
  then show "get_block_mixes N ! k = group_of (step_pairs (List.product [0..<N] [0..<N]) []) k"
    by (simp add: group_of_def)
qed

lemma length_get_block_mixes:
  assumes "1 \<le> N"
  shows "length (get_block_mixes N) = 2 * N - 1"
proof -
  have "length (map fst (fold (inner_loop N) [0..<N] [])) = length [0..<2 * N - 1]"
    by (simp only: block_mixes_keys[OF assms])
  then show ?thesis by (simp add: get_block_mixes_def)
qed

lemma block_mixes_total:
  "(\<Sum>g\<leftarrow>get_block_mixes N. sum_list (map snd g)) = N ^ 2"
proof -
  have "(\<Sum>g\<leftarrow>get_block_mixes N. sum_list (map snd g)) =
          sum_list (map (\<lambda>p. group_total (snd p)) (step_pairs (List.product [0..<N] [0..<N]) []))"
    by (simp add: get_block_mixes_def loops_as_pairs group_total_def comp_def)
  also have "\<dots> = N * N" by (simp add: step_pairs_total)
  finally show ?thesis by (simp add: power2_eq_square)
qed

lemma block_mixes_distinct:
  assumes "1 \<le> N" "k < 2 * N - 1"
  shows "distinct (map fst (get_block_mixes N ! k))"
    and "\<forall>v c. map_of (get_block_mixes N ! k) v = Some c \<longrightarrow> 0 < c"
proof -
  have ok: "groups_ok (step_pairs (List.product [0..<N] [0..<N]) [])"
    by (rule groups_ok_step_pairs[OF groups_ok_empty])
  from ok block_mixes_group(2)[OF assms]
  show "distinct (map fst (get_block_mixes N ! k))"
    and "\<forall>v c. map_of (get_block_mixes N ! k) v = Some c \<longrightarrow> 0 < c"
    unfolding groups_ok_def by blast+
qed

lemma block_mixes_lookup:
  assumes "1 \<le> N" "k < 2 * N - 1"
  shows "map_of (get_block_mixes N ! k) (i, j) =
           (if i \<le> j \<and> j < N \<and> i + j = k then Some (if i = j then 1 else 2) else None)"
proof -
  let ?g = "get_block_mixes N ! k"
  note g = block_mixes_group[OF assms]
  have c: "count_of ?g (i, j) = (if i \<le> j \<and> j < N \<and> i + j = k then (if i = j then 1 else 2) else 0)"
    using step_pairs_count[of "List.product [0..<N] [0..<N]" "[]" k "(i, j)"]
    by (simp add: g(1) group_of_def count_of_def hits_count)
  show ?thesis
    unfolding map_of_from_count[OF block_mixes_distinct(2)[OF assms]] c by simp
qed

lemma block_mixes_group_sum:
  assumes "1 \<le> N" "k < 2 * N - 1"
  shows "sum_list (map snd (get_block_mixes N ! k)) = card {(i, j). i < N \<and> j < N \<and> i + j = k}"
  using step_pairs_group_total[of "List.product [0..<N] [0..<N]" "[]" k]
  by (simp add: block_mixes_group(1)[OF assms] group_total_def group_of_def sum_count)

lemma block_mixes_indices:
  assumes "1 \<le> N"
  shows "(\<Union>g\<in>set (get_block_mixes N). \<Union>((i, j), m)\<in>set g. {i, j}) = {0..<N}"
proof (intro equalityI subsetI)
  fix x assume "x \<in> (\<Union>g\<in>set (get_block_mixes N). \<Union>((i, j), m)\<in>set g. {i, j})"
  then obtain g i j m where g: "g \<in> set (get_block_mixes N)" and e: "((i, j), m) \<in> set g"
    and x: "x = i \<or> x = j" by auto
  from g obtain k where k: "k < 2 * N - 1" and gk: "g = get_block_mixes N ! k"
    by (metis in_set_conv_nth length_get_block_mixes[OF assms])
  have "map_of g (i, j) = Some m"
    using block_mixes_distinct(1)[OF assms k] e unfolding gk by simp
  with block_mixes_lookup[OF assms k, of i j] have "i \<le> j \<and> j < N"
    unfolding gk by (simp split: if_splits)
  with x show "x \<in> {0..<N}" by auto
next
  fix x assume "x \<in> {0..<N}"
  then have x: "x < N" by simp
  then have k: "x + x < 2 * N - 1" by linarith
  have "map_of (get_block_mixes N ! (x + x)) (x, x) = Some 1"
    using block_mixes_lookup[OF assms k, of x x] x by simp
  then have "((x, x), 1) \<in> set (get_block_mixes N ! (x + x))" by (rule map_of_SomeD)
  moreover have "get_block_mixes N ! (x + x) \<in> set (get_block_mixes N)"
    using k length_get_block_mixes[OF assms] by simp
  ultimately show "x \<in> (\<Union>g\<in>set (get_block_mixes N). \<Union>((i, j), m)\<in>set g. {i, j})"
    by fastforce
qed

text \<open>
  Claim C1. For \<open>N \<ge> 1\<close>, \<open>get_block_mixes N\<close> is a sequence of exactly \<open>2N - 1\<close>
  groups. Its \<open>k\<close>-th group is a dictionary (distinct keys) that maps exactly the pairs
  \<open>(i, j)\<close> with \<open>i \<le> j < N\<close> and \<open>i + j = k\<close>, a diagonal pair to 1 and an
  off-diagonal pair to 2. The multiplicities of group \<open>k\<close> sum to the number of ordered
  pairs \<open>(i, j)\<close> below \<open>N\<close> with \<open>i + j = k\<close>, and all multiplicities together sum
  to \<open>N\<^sup>2\<close>.
\<close>

theorem get_block_mixes_groups:
  assumes "1 \<le> N"
  shows "length (get_block_mixes N) = 2 * N - 1
     \<and> (\<forall>k<2 * N - 1.
          distinct (map fst (get_block_mixes N ! k))
        \<and> (\<forall>i j. map_of (get_block_mixes N ! k) (i, j) =
                 (if i \<le> j \<and> j < N \<and> i + j = k then Some (if i = j then 1 else 2) else None))
        \<and> sum_list (map snd (get_block_mixes N ! k)) = card {(i, j). i < N \<and> j < N \<and> i + j = k})
     \<and> (\<Sum>g\<leftarrow>get_block_mixes N. sum_list (map snd g)) = N ^ 2"
  using length_get_block_mixes[OF assms] block_mixes_total[of N]
    block_mixes_distinct(1)[OF assms] block_mixes_lookup[OF assms] block_mixes_group_sum[OF assms]
  by simp

theorem get_block_mixes_groups_witness:
  "(1::nat) \<le> 3 \<and> length (get_block_mixes 3) = 5
     \<and> get_block_mixes 3 ! 2 = [((0, 2), 2), ((1, 1), 1)]
     \<and> sum_list (map snd (get_block_mixes 3 ! 2)) = card {(i, j). i < (3::nat) \<and> j < (3::nat) \<and> i + j = 2}
     \<and> (\<Sum>g\<leftarrow>get_block_mixes 3. sum_list (map snd g)) = 9"
proof -
  have h: "(1::nat) \<le> 3" by simp
  have e: "get_block_mixes 3 = [[((0, 0), 1)], [((0, 1), 2)], [((0, 2), 2), ((1, 1), 1)], [((1, 2), 2)], [((2, 2), 1)]]"
    by code_simp
  from get_block_mixes_groups[OF h] have
    "sum_list (map snd (get_block_mixes 3 ! 2)) = card {(i, j). i < (3::nat) \<and> j < (3::nat) \<and> i + j = 2}"
    by simp
  with h e show ?thesis by simp
qed

section \<open>Properties of the block segmentation\<close>

subsection \<open>Streaming filtering\<close>

lemma lfilter_append:
  "lfilter b a (xs @ ys) zi =
     (let (y1, z1) = lfilter b a xs zi; (y2, z2) = lfilter b a ys z1 in (y1 @ y2, z2))"
  by (induction xs arbitrary: zi) (auto simp: Let_def split: prod.splits)

text \<open>
  Claim C7. For every channel, filtering the blocks in index order while carrying the
  filter state from each block into the next yields, over the concatenation of the blocks,
  exactly the sample sequence (and the final state) of one application of the filter to
  the concatenated channel signal from the same initial state.
\<close>

theorem streaming_filter_is_whole_filter:
  assumes "nchannel < nchannels"
  shows "concat (map (\<lambda>ys. ys ! nchannel) (fst (segment_filter b20hz a20hz nchannels zi20 blocks)))
           = fst (lfilter b20hz a20hz (concat (map (\<lambda>block. block ! nchannel) blocks)) (zi20 ! nchannel))
       \<and> snd (segment_filter b20hz a20hz nchannels zi20 blocks) ! nchannel
           = snd (lfilter b20hz a20hz (concat (map (\<lambda>block. block ! nchannel) blocks)) (zi20 ! nchannel))"
proof (induction blocks arbitrary: zi20)
  case Nil
  show ?case by simp
next
  case (Cons block blocks)
  let ?r = "map (\<lambda>c. lfilter b20hz a20hz (block ! c) (zi20 ! c)) [0..<nchannels]"
  obtain y1 z1 where first: "lfilter b20hz a20hz (block ! nchannel) (zi20 ! nchannel) = (y1, z1)"
    by (cases "lfilter b20hz a20hz (block ! nchannel) (zi20 ! nchannel)")
  have r_fst: "map fst ?r ! nchannel = y1" and r_snd: "map snd ?r ! nchannel = z1"
    using assms first by simp_all
  obtain ys zf where rest: "segment_filter b20hz a20hz nchannels (map snd ?r) blocks = (ys, zf)"
    by (cases "segment_filter b20hz a20hz nchannels (map snd ?r) blocks")
  from Cons.IH[of "map snd ?r"] rest r_snd
  have IH: "concat (map (\<lambda>ys. ys ! nchannel) ys)
              = fst (lfilter b20hz a20hz (concat (map (\<lambda>block. block ! nchannel) blocks)) z1)"
           "zf ! nchannel
              = snd (lfilter b20hz a20hz (concat (map (\<lambda>block. block ! nchannel) blocks)) z1)"
    by simp_all
  have seg: "segment_filter b20hz a20hz nchannels zi20 (block # blocks) = (map fst ?r # ys, zf)"
    using rest by (simp add: Let_def)
  have whole: "lfilter b20hz a20hz (concat (map (\<lambda>block. block ! nchannel) (block # blocks))) (zi20 ! nchannel)
      = (y1 @ fst (lfilter b20hz a20hz (concat (map (\<lambda>block. block ! nchannel) blocks)) z1),
         snd (lfilter b20hz a20hz (concat (map (\<lambda>block. block ! nchannel) blocks)) z1))"
    by (simp add: lfilter_append first split: prod.splits)
  show ?case
    unfolding seg whole using IH r_fst by simp
qed

theorem streaming_filter_is_whole_filter_witness:
  "(0::nat) < 2
   \<and> concat (map (\<lambda>ys. ys ! 0)
         (fst (segment_filter (1, 2, 3, 4) (1, 1, 2, 3) 2 [(0, 0, 0), (1, 1, 1)]
                [[[1, 2], [3, 4]], [[5], [6::int]]])))
       = [1, 3, 7]
   \<and> fst (lfilter (1, 2, 3, 4) (1, 1, 2, 3) [1, 2, 5::int] (0, 0, 0)) = [1, 3, 7]"
proof -
  have h: "(0::nat) < 2" by simp
  have e: "fst (lfilter (1, 2, 3, 4) (1, 1, 2, 3) [1, 2, 5::int] (0, 0, 0)) = [1, 3, 7]"
    by (simp add: Let_def)
  from streaming_filter_is_whole_filter[OF h, of "(1, 2, 3, 4)" "(1, 1, 2, 3)" "[(0, 0, 0), (1, 1, 1)]"
       "[[[1, 2], [3, 4]], [[5], [6::int]]]"] e h
  show ?thesis by simp
qed

subsection \<open>The number of blocks\<close>

lemma length_read_blocks: "length (read_blocks n sz frames) = n"
  by (induction n arbitrary: frames) simp_all

lemma concat_read_blocks: "concat (read_blocks n sz frames) = take (n * sz) frames"
proof (induction n arbitrary: frames)
  case 0
  show ?case by simp
next
  case (Suc n)
  have "take sz frames @ take (n * sz) (drop sz frames) = take (sz + n * sz) frames"
    by (simp add: take_add)
  with Suc show ?case by simp
qed

text \<open>
  Claim C6. For a stream of \<open>total_samples\<close> frames and a block size of at least 1,
  \<open>n_blocks\<close> is \<open>\<lfloor>total_samples / input_block_size\<rfloor> + 2\<close>; the segmentation loop
  produces exactly that many blocks, which together hold the whole stream, and the block
  indices that the mixing plan refers to are exactly \<open>0, \<dots>, n_blocks - 1\<close>.
\<close>

theorem n_blocks_produced_and_mixed:
  assumes "1 \<le> input_block_size_samples"
  shows "\<exists>n_blocks.
           n_blocks_of (int (length frames)) input_block_size_samples = Some n_blocks
         \<and> n_blocks = \<lfloor>real (length frames) / real_of_int input_block_size_samples\<rfloor> + 2
         \<and> length (read_blocks (nat n_blocks) (nat input_block_size_samples) frames) = nat n_blocks
         \<and> concat (read_blocks (nat n_blocks) (nat input_block_size_samples) frames) = frames
         \<and> (\<Union>g\<in>set (get_block_mixes (nat n_blocks)). \<Union>((i, j), m)\<in>set g. {i, j})
               = {0..<nat n_blocks}"
proof -
  let ?total = "int (length frames)"
  let ?n = "?total div input_block_size_samples + 2"
  have nz: "input_block_size_samples \<noteq> 0" using assms by simp
  have a: "n_blocks_of ?total input_block_size_samples = Some ?n"
    using nz by (simp add: n_blocks_of_def)
  have "real (length frames) = of_int ?total" by simp
  then have b: "?n = \<lfloor>real (length frames) / real_of_int input_block_size_samples\<rfloor> + 2"
    by (simp only: floor_divide_of_int_eq)
  have q: "0 \<le> ?total div input_block_size_samples"
    using assms by (simp add: pos_imp_zdiv_nonneg_iff)
  then have n1: "1 \<le> nat ?n" by linarith
  have m: "?total mod input_block_size_samples < input_block_size_samples"
    using assms by simp
  have "?total = ?total div input_block_size_samples * input_block_size_samples
                   + ?total mod input_block_size_samples" by simp
  with m have "?total < ?total div input_block_size_samples * input_block_size_samples
                   + input_block_size_samples" by linarith
  also have "\<dots> \<le> ?n * input_block_size_samples"
    using assms by (simp add: algebra_simps)
  finally have le: "?total \<le> ?n * input_block_size_samples" by simp
  have "0 \<le> ?n" using q by simp
  then have "nat (?n * input_block_size_samples) = nat ?n * nat input_block_size_samples"
    by (rule nat_mult_distrib)
  with le have "length frames \<le> nat ?n * nat input_block_size_samples"
    by (metis nat_int nat_mono)
  then have c: "concat (read_blocks (nat ?n) (nat input_block_size_samples) frames) = frames"
    by (simp add: concat_read_blocks)
  show ?thesis
    using a b c length_read_blocks block_mixes_indices[OF n1] by blast
qed

theorem n_blocks_produced_and_mixed_witness:
  "(1::int) \<le> 3
   \<and> n_blocks_of (int (length [10, 20, 30, 40, 50, 60, 70::int])) 3 = Some 4
   \<and> read_blocks 4 3 [10, 20, 30, 40, 50, 60, 70::int] = [[10, 20, 30], [40, 50, 60], [70], []]
   \<and> (\<Union>g\<in>set (get_block_mixes 4). \<Union>((i, j), m)\<in>set g. {i, j}) = {0..<4}"
proof -
  have h: "(1::int) \<le> 3" by simp
  have n: "n_blocks_of (int (length [10, 20, 30, 40, 50, 60, 70::int])) 3 = Some 4"
    by (simp add: n_blocks_of_def)
  have r: "read_blocks 4 3 [10, 20, 30, 40, 50, 60, 70::int] = [[10, 20, 30], [40, 50, 60], [70], []]"
    by code_simp
  from n_blocks_produced_and_mixed[OF h, of "[10, 20, 30, 40, 50, 60, 70::int]"] n
  have "(\<Union>g\<in>set (get_block_mixes (nat 4)). \<Union>((i, j), m)\<in>set g. {i, j}) = {0..<nat 4}"
    by auto
  then have "(\<Union>g\<in>set (get_block_mixes 4). \<Union>((i, j), m)\<in>set g. {i, j}) = {0..<4}"
    by simp
  with h n r show ?thesis by blast
qed

section \<open>Properties of the spectrum envelope\<close>

subsection \<open>Rounding to float32\<close>












subsection \<open>The sliding maximum\<close>



















section \<open>Properties of the spectral mixing\<close>

lemma fold_accumulate_skip:
  assumes "0 < L"
  shows "fold (accumulate_pair L tmpfft c) g acc =
         fold (accumulate_pair 0 tmpfft c) (filter (\<lambda>((b1_k, b2_k), mul). \<not> \<bar>int b1_k - int b2_k\<bar> > L) g) acc"
  using assms by (induction g arbitrary: acc) (auto simp: accumulate_pair_def)

lemma fold_accumulate_all_far:
  assumes "0 < L" "\<forall>((b1_k, b2_k), mul)\<in>set g. \<bar>int b1_k - int b2_k\<bar> > L"
  shows "fold (accumulate_pair L tmpfft c) g acc = acc"
  using assms by (induction g arbitrary: acc) (auto simp: accumulate_pair_def)

lemma fold_accumulate_cong:
  assumes "\<forall>((b1_k, b2_k), mul)\<in>set g. \<not> (0 < L \<and> \<bar>int b1_k - int b2_k\<bar> > L) \<longrightarrow>
             tmpfft b1_k c = tmpfft' b1_k c \<and> tmpfft b2_k c = tmpfft' b2_k c"
  shows "fold (accumulate_pair L tmpfft c) g acc = fold (accumulate_pair L tmpfft' c) g acc"
  using assms by (induction g arbitrary: acc) (auto simp: accumulate_pair_def)

text \<open>
  Claim C3. With an adjacency limit \<open>L = limit_blocks > 0\<close>, the spectrum accumulated
  for a group and a channel is the one accumulated, without limit, from the group with
  every pair \<open>(i, j)\<close>, \<open>|i - j| > L\<close> removed; it does not depend on the spectra of
  blocks that occur only in such pairs; a group all of whose pairs are that far apart
  accumulates the all-zero spectrum; and the planner's groups still contain those pairs.
\<close>

theorem adjacency_limit_skips_far_pairs:
  assumes "0 < limit_blocks"
  shows "sum_freqs_of limit_blocks tmpfft obs nchannel block_mix =
           sum_freqs_of 0 tmpfft obs nchannel
             (filter (\<lambda>((b1_k, b2_k), mul). \<not> \<bar>int b1_k - int b2_k\<bar> > limit_blocks) block_mix)
       \<and> ((\<forall>((b1_k, b2_k), mul)\<in>set block_mix.
              \<bar>int b1_k - int b2_k\<bar> \<le> limit_blocks \<longrightarrow>
                tmpfft b1_k nchannel = tmpfft' b1_k nchannel \<and> tmpfft b2_k nchannel = tmpfft' b2_k nchannel)
            \<longrightarrow> sum_freqs_of limit_blocks tmpfft obs nchannel block_mix =
                sum_freqs_of limit_blocks tmpfft' obs nchannel block_mix)
       \<and> ((\<forall>((b1_k, b2_k), mul)\<in>set block_mix. \<bar>int b1_k - int b2_k\<bar> > limit_blocks)
            \<longrightarrow> sum_freqs_of limit_blocks tmpfft obs nchannel block_mix = replicate (obs div 2 + 1) 0)
       \<and> (\<forall>i j. i \<le> j \<and> j < N \<and> int j - int i > limit_blocks
            \<longrightarrow> map_of (get_block_mixes N ! (i + j)) (i, j) = Some 2)"
proof (intro conjI impI allI)
  show "sum_freqs_of limit_blocks tmpfft obs nchannel block_mix =
           sum_freqs_of 0 tmpfft obs nchannel
             (filter (\<lambda>((b1_k, b2_k), mul). \<not> \<bar>int b1_k - int b2_k\<bar> > limit_blocks) block_mix)"
    unfolding sum_freqs_of_def by (rule fold_accumulate_skip[OF assms])
next
  assume "\<forall>((b1_k, b2_k), mul)\<in>set block_mix.
              \<bar>int b1_k - int b2_k\<bar> \<le> limit_blocks \<longrightarrow>
                tmpfft b1_k nchannel = tmpfft' b1_k nchannel \<and> tmpfft b2_k nchannel = tmpfft' b2_k nchannel"
  then have "\<forall>((b1_k, b2_k), mul)\<in>set block_mix.
       \<not> (0 < limit_blocks \<and> \<bar>int b1_k - int b2_k\<bar> > limit_blocks) \<longrightarrow>
             tmpfft b1_k nchannel = tmpfft' b1_k nchannel \<and> tmpfft b2_k nchannel = tmpfft' b2_k nchannel"
    using assms by fastforce
  then show "sum_freqs_of limit_blocks tmpfft obs nchannel block_mix =
                sum_freqs_of limit_blocks tmpfft' obs nchannel block_mix"
    unfolding sum_freqs_of_def by (rule fold_accumulate_cong)
next
  assume "\<forall>((b1_k, b2_k), mul)\<in>set block_mix. \<bar>int b1_k - int b2_k\<bar> > limit_blocks"
  then show "sum_freqs_of limit_blocks tmpfft obs nchannel block_mix = replicate (obs div 2 + 1) 0"
    unfolding sum_freqs_of_def by (rule fold_accumulate_all_far[OF assms])
next
  fix i j assume a: "i \<le> j \<and> j < N \<and> int j - int i > limit_blocks"
  then have N: "1 \<le> N" and k: "i + j < 2 * N - 1" and ne: "i \<noteq> j" using assms by auto
  show "map_of (get_block_mixes N ! (i + j)) (i, j) = Some 2"
    using block_mixes_lookup[OF N k, of i j] a ne by simp
qed

theorem adjacency_limit_skips_far_pairs_witness:
  "(0::int) < 1
   \<and> sum_freqs_of 1 (\<lambda>b c. [of_nat b + 1, 2, 3]) 4 0 [((0, 2), 2)] = [0, 0, 0]
   \<and> sum_freqs_of 1 (\<lambda>b c. [of_nat b + 1, 2, 3]) 4 0 [((0, 2), 2), ((1, 1), 1)] = [4, 4, 9]
   \<and> sum_freqs_of 0 (\<lambda>b c. [of_nat b + 1, 2, 3]) 4 0 [((0, 2), 2), ((1, 1), 1)] = [10, 12, 27]
   \<and> map_of (get_block_mixes 3 ! 2) (0, 2) = Some 2"
proof -
  have h: "(0::int) < 1" by simp
  note t = adjacency_limit_skips_far_pairs[OF h, of "\<lambda>b c. [of_nat b + 1, 2, 3]" 4 0 _
               "\<lambda>b c. [of_nat b + 1, 2, 3]" 3]
  have far: "\<forall>((b1_k, b2_k), mul)\<in>set [((0::nat, 2::nat), 2::nat)]. \<bar>int b1_k - int b2_k\<bar> > 1"
    by simp
  from t[of "[((0, 2), 2)]", THEN conjunct2, THEN conjunct2, THEN conjunct1] far
  have "sum_freqs_of 1 (\<lambda>b c. [of_nat b + 1, 2, 3]) 4 0 [((0, 2), 2)] = replicate (4 div 2 + 1) 0"
    by blast
  then have a: "sum_freqs_of 1 (\<lambda>b c. [of_nat b + 1, 2, 3]) 4 0 [((0, 2), 2)] = [0, 0, 0]"
    by (simp add: numeral_3_eq_3)
  have b: "sum_freqs_of 1 (\<lambda>b c. [of_nat b + 1, 2, 3]) 4 0 [((0, 2), 2), ((1, 1), 1)] = [4, 4, 9]"
    by (simp add: sum_freqs_of_def accumulate_pair_def numeral_3_eq_3)
  have c: "sum_freqs_of 0 (\<lambda>b c. [of_nat b + 1, 2, 3]) 4 0 [((0, 2), 2), ((1, 1), 1)] = [10, 12, 27]"
    by (simp add: sum_freqs_of_def accumulate_pair_def numeral_3_eq_3)
  from t[of "[((0, 2), 2)]", THEN conjunct2, THEN conjunct2, THEN conjunct2]
  have "(0::nat) \<le> 2 \<and> (2::nat) < 3 \<and> int 2 - int 0 > 1
          \<longrightarrow> map_of (get_block_mixes 3 ! (0 + 2)) (0, 2) = Some 2"
    by blast
  then have d: "map_of (get_block_mixes 3 ! 2) (0, 2) = Some 2" by (simp add: numeral_2_eq_2)
  from h a b c d show ?thesis by blast
qed

section \<open>Properties of the output loop\<close>

subsection \<open>Shapes\<close>

lemma mixed_block_length_ge:
  assumes "output_block_size_samples_of keep_envelope_mode ibs = Some obs"
  shows "ibs \<le> mixed_block_length obs"
  using assms
  by (auto simp: output_block_size_samples_of_def mixed_block_length_def irfft_length_def
           split: if_splits)

lemma length_add_rows: "length (add_rows x y) = min (length x) (length y)"
  by (simp add: add_rows_def)

lemma width_add_rows:
  assumes "\<forall>row\<in>set x. length row = n" "\<forall>row\<in>set y. length row = n"
  shows "\<forall>row\<in>set (add_rows x y). length row = n"
  using assms by (auto simp: add_rows_def set_zip)

lemma fold_add_rows_shape:
  assumes "\<forall>old\<in>set olds. ibs \<le> length old \<and> (\<forall>row\<in>set old. length row = n)"
    and "length r \<le> ibs" "\<forall>row\<in>set r. length row = n"
  shows "length (fold (\<lambda>old r. add_rows r (take ibs old)) olds r) = length r
       \<and> (\<forall>row\<in>set (fold (\<lambda>old r. add_rows r (take ibs old)) olds r). length row = n)"
  using assms
proof (induction olds arbitrary: r)
  case Nil
  then show ?case by simp
next
  case (Cons old olds)
  have len: "length (add_rows r (take ibs old)) = length r"
    using Cons.prems by (simp add: length_add_rows)
  have "\<forall>row\<in>set (take ibs old). length row = n"
    using Cons.prems(1) by (auto dest: in_set_takeD)
  then have wid: "\<forall>row\<in>set (add_rows r (take ibs old)). length row = n"
    using Cons.prems(3) by (intro width_add_rows) auto
  from Cons.IH[of "add_rows r (take ibs old)"] Cons.prems len wid
  show ?case by simp
qed

lemma output_step_shape:
  assumes "\<forall>old\<in>set old_buf. wide n old" "wide n cur" "ibs \<le> length cur"
  shows "length (fst (output_step ibs old_buf cur)) = ibs"
    and "wide n (fst (output_step ibs old_buf cur))"
    and "\<forall>old\<in>set (snd (output_step ibs old_buf cur)). wide n old"
proof -
  let ?olds = "filter (\<lambda>old. length old \<ge> ibs) old_buf"
  have a: "\<forall>old\<in>set ?olds. ibs \<le> length old \<and> (\<forall>row\<in>set old. length row = n)"
    using assms(1) by (auto simp: wide_def)
  have b: "length (take ibs cur) \<le> ibs" by simp
  have c: "\<forall>row\<in>set (take ibs cur). length row = n"
    using assms(2) by (auto simp: wide_def dest: in_set_takeD)
  note sh = fold_add_rows_shape[OF a b c]
  show "length (fst (output_step ibs old_buf cur)) = ibs"
    using sh assms(3) by (simp add: output_step_def Let_def)
  show "wide n (fst (output_step ibs old_buf cur))"
    using sh by (simp add: output_step_def Let_def wide_def)
  show "\<forall>old\<in>set (snd (output_step ibs old_buf cur)). wide n old"
    using assms(1,2) by (auto simp: output_step_def Let_def wide_def dest: in_set_dropD)
qed

lemma wide_scale_block: "wide n (scale_block m a) = wide n a"
  by (simp add: wide_def scale_block_def)

lemma length_scale_block: "length (scale_block m a) = length a"
  by (simp add: scale_block_def)

lemma length_output_hops: "length (output_hops ibs m old_buf tmpsmp) = length tmpsmp"
  by (induction tmpsmp arbitrary: old_buf) (simp_all add: Let_def split: prod.splits)

lemma output_hops_shape:
  assumes "\<forall>old\<in>set old_buf. wide n old"
    and "\<forall>smps\<in>set tmpsmp. ibs \<le> length smps \<and> wide n smps"
  shows "\<forall>h\<in>set (output_hops ibs m old_buf tmpsmp). length h = ibs \<and> wide n h"
  using assms
proof (induction tmpsmp arbitrary: old_buf)
  case Nil
  show ?case by simp
next
  case (Cons smps rest)
  let ?cur = "scale_block m smps"
  have w: "wide n ?cur" and l: "ibs \<le> length ?cur"
    using Cons.prems(2) by (simp_all add: wide_scale_block length_scale_block)
  note st = output_step_shape[OF Cons.prems(1) w l]
  obtain r old' where e: "output_step ibs old_buf ?cur = (r, old')"
    by (cases "output_step ibs old_buf ?cur")
  from st e have r: "length r = ibs" "wide n r" and o: "\<forall>old\<in>set old'. wide n old" by simp_all
  from Cons.IH[OF o] Cons.prems(2)
  have "\<forall>h\<in>set (output_hops ibs m old' rest). length h = ibs \<and> wide n h" by simp
  with r e show ?case by (simp add: Let_def)
qed

lemma length_output_buf:
  assumes "wide n h"
  shows "length (output_buf h) = length h * n"
proof -
  have "map length (map (map (\<lambda>x. to_int16 (clip x * 32767))) h) = replicate (length h) n"
    using assms by (auto simp: wide_def map_replicate_const[symmetric] intro!: map_cong)
  then show ?thesis
    by (simp add: output_buf_def length_concat sum_list_replicate)
qed

text \<open>
  Claim C9. The output loop runs once per mix group, that is \<open>2 * n_blocks - 1\<close>
  times, and each iteration writes exactly \<open>input_block_size_samples\<close> frames (rows of
  \<open>nchannels\<close> samples), so that exactly \<open>(2 * n_blocks - 1) * input_block_size_samples\<close>
  frames per channel are written.
\<close>

theorem output_length_exact:
  assumes "1 \<le> n_blocks"
    and "output_block_size_samples_of keep_envelope_mode input_block_size_samples = Some obs"
    and "length tmpsmp = length (get_block_mixes n_blocks)"
    and "\<forall>smps\<in>set tmpsmp. length smps = mixed_block_length obs
                              \<and> (\<forall>row\<in>set smps. length row = nchannels)"
  shows "length (written_frames input_block_size_samples max_smp tmpsmp) = 2 * n_blocks - 1
       \<and> (\<forall>buf\<in>set (written_frames input_block_size_samples max_smp tmpsmp).
             length buf = input_block_size_samples * nchannels)
       \<and> length (concat (written_frames input_block_size_samples max_smp tmpsmp))
             = (2 * n_blocks - 1) * input_block_size_samples * nchannels"
proof -
  let ?w = "written_frames input_block_size_samples max_smp tmpsmp"
  have len: "length ?w = 2 * n_blocks - 1"
    using assms(3) length_get_block_mixes[OF assms(1)]
    by (simp add: written_frames_def length_output_hops)
  have "\<forall>smps\<in>set tmpsmp. input_block_size_samples \<le> length smps \<and> wide nchannels smps"
    using assms(4) mixed_block_length_ge[OF assms(2)] by (simp add: wide_def)
  from output_hops_shape[OF _ this, of "[]" max_smp]
  have hops: "\<forall>h\<in>set (output_hops input_block_size_samples max_smp [] tmpsmp).
                 length h = input_block_size_samples \<and> wide nchannels h" by simp
  then have each: "\<forall>buf\<in>set ?w. length buf = input_block_size_samples * nchannels"
    by (auto simp: written_frames_def length_output_buf)
  then have "map length ?w = replicate (length ?w) (input_block_size_samples * nchannels)"
    by (simp add: map_replicate_const[symmetric] cong: map_cong)
  then have "length (concat ?w) = length ?w * (input_block_size_samples * nchannels)"
    by (simp add: length_concat sum_list_replicate)
  with len each show ?thesis by (simp add: mult.assoc)
qed

theorem output_length_exact_witness:
  "(1::nat) \<le> 2 \<and> output_block_size_samples_of 0 1 = Some 2
   \<and> length (written_frames 1 1 [[[1], [1 / 2]], [[1 / 2], [0]], [[0], [0]]]) = 3
   \<and> length (concat (written_frames 1 1 [[[1], [1 / 2]], [[1 / 2], [0]], [[0], [0]]])) = 3"
proof -
  have h1: "(1::nat) \<le> 2" by simp
  have h2: "output_block_size_samples_of 0 1 = Some 2"
    by (simp add: output_block_size_samples_of_def)
  have h3: "length [[[1], [1 / 2]], [[1 / 2], [0]], [[0], [0::real]]] = length (get_block_mixes 2)"
    by code_simp
  have h4: "\<forall>smps\<in>set [[[1], [1 / 2]], [[1 / 2], [0]], [[0], [0::real]]].
              length smps = mixed_block_length 2 \<and> (\<forall>row\<in>set smps. length row = 1)"
    by (simp add: mixed_block_length_def irfft_length_def)
  from output_length_exact[OF h1 h2 h3 h4, of 1] h1 h2 show ?thesis by simp
qed

subsection \<open>Blocks without tails\<close>

lemma add_zero_rows:
  assumes "wide n r" "wide n z" "all_zero z" "length r \<le> length z"
  shows "add_rows r z = r"
  using assms
proof (induction r arbitrary: z)
  case Nil
  show ?case by (simp add: add_rows_def)
next
  case (Cons row r)
  then obtain zrow z' where z: "z = zrow # z'" by (cases z) auto
  have lz: "length zrow = length row"
    using Cons.prems(1,2) by (simp add: wide_def z)
  have zz: "\<forall>x\<in>set zrow. x = 0" using Cons.prems(3) by (simp add: all_zero_def z)
  have "map2 (+) row zrow = row"
    using lz zz
  proof (induction row arbitrary: zrow)
    case Nil
    show ?case by simp
  next
    case (Cons x row)
    then show ?case by (cases zrow) auto
  qed
  moreover have "add_rows r z' = r"
    using Cons.IH[of z'] Cons.prems by (simp add: wide_def all_zero_def z)
  ultimately show ?case by (simp add: add_rows_def z)
qed

lemma fold_add_zero_rows:
  assumes "\<forall>old\<in>set olds. ibs \<le> length old \<and> wide n old \<and> all_zero old"
    and "wide n r" "length r \<le> ibs"
  shows "fold (\<lambda>old r. add_rows r (take ibs old)) olds r = r"
  using assms(1)
proof (induction olds)
  case Nil
  show ?case by simp
next
  case (Cons old olds)
  have "wide n (take ibs old)" "all_zero (take ibs old)" "length r \<le> length (take ibs old)"
    using Cons.prems assms(3) by (auto simp: wide_def all_zero_def dest: in_set_takeD)
  then have "add_rows r (take ibs old) = r" by (rule add_zero_rows[OF assms(2)])
  with Cons show ?case by simp
qed

lemma output_step_zero_tails:
  assumes "\<forall>old\<in>set old_buf. wide n old \<and> all_zero old"
    and "wide n cur" "all_zero (drop ibs cur)"
  shows "fst (output_step ibs old_buf cur) = take ibs cur"
    and "\<forall>old\<in>set (snd (output_step ibs old_buf cur)). wide n old \<and> all_zero old"
proof -
  let ?olds = "filter (\<lambda>old. length old \<ge> ibs) old_buf"
  have a: "\<forall>old\<in>set ?olds. ibs \<le> length old \<and> wide n old \<and> all_zero old"
    using assms(1) by auto
  have b: "wide n (take ibs cur)" using assms(2) by (auto simp: wide_def dest: in_set_takeD)
  have c: "length (take ibs cur) \<le> ibs" by simp
  show "fst (output_step ibs old_buf cur) = take ibs cur"
    using fold_add_zero_rows[OF a b c] by (simp add: output_step_def Let_def)
  show "\<forall>old\<in>set (snd (output_step ibs old_buf cur)). wide n old \<and> all_zero old"
    using assms by (auto simp: output_step_def Let_def wide_def all_zero_def dest: in_set_dropD)
qed

lemma all_zero_scale_tail:
  assumes "all_zero (drop ibs smps)"
  shows "all_zero (drop ibs (scale_block m smps))"
  using assms by (auto simp: all_zero_def scale_block_def drop_map)

lemma output_hops_zero_tails:
  assumes "\<forall>old\<in>set old_buf. wide n old \<and> all_zero old"
    and "\<forall>smps\<in>set tmpsmp. wide n smps \<and> all_zero (drop ibs smps)"
  shows "output_hops ibs m old_buf tmpsmp = map (\<lambda>smps. take ibs (scale_block m smps)) tmpsmp"
  using assms
proof (induction tmpsmp arbitrary: old_buf)
  case Nil
  show ?case by simp
next
  case (Cons smps rest)
  let ?cur = "scale_block m smps"
  have w: "wide n ?cur" and z: "all_zero (drop ibs ?cur)"
    using Cons.prems(2) by (simp_all add: wide_scale_block all_zero_scale_tail)
  note st = output_step_zero_tails[OF Cons.prems(1) w z]
  obtain r old' where e: "output_step ibs old_buf ?cur = (r, old')"
    by (cases "output_step ibs old_buf ?cur")
  from st e have r: "r = take ibs ?cur" and o: "\<forall>old\<in>set old'. wide n old \<and> all_zero old"
    by simp_all
  from Cons.IH[OF o] Cons.prems(2)
  have "output_hops ibs m old' rest = map (\<lambda>smps. take ibs (scale_block m smps)) rest" by simp
  with r e show ?case by (simp add: Let_def)
qed

text \<open>
  Claim C5. If every mixed block is zero beyond its first \<open>input_block_size_samples\<close>
  rows, the hops that the output loop assembles are the head segments of the (scaled)
  blocks in group order, and what is written is their quantisation: no addition of an
  earlier block's tail changes a sample. The proof uses of the sample arithmetic only
  that adding zero leaves a sample as it is.
\<close>

theorem overlap_add_without_tails:
  assumes "\<forall>smps\<in>set tmpsmp. input_block_size_samples \<le> length smps
                              \<and> (\<forall>row\<in>set smps. length row = nchannels)"
    and "\<forall>smps\<in>set tmpsmp. \<forall>row\<in>set (drop input_block_size_samples smps). \<forall>x\<in>set row. x = 0"
  shows "output_hops input_block_size_samples max_smp [] tmpsmp
           = map (\<lambda>smps. take input_block_size_samples (scale_block max_smp smps)) tmpsmp
       \<and> concat (output_hops input_block_size_samples max_smp [] tmpsmp)
           = concat (map (\<lambda>smps. take input_block_size_samples (scale_block max_smp smps)) tmpsmp)
       \<and> written_frames input_block_size_samples max_smp tmpsmp
           = map (\<lambda>smps. output_buf (take input_block_size_samples (scale_block max_smp smps))) tmpsmp"
proof -
  have "\<forall>smps\<in>set tmpsmp. wide nchannels smps \<and> all_zero (drop input_block_size_samples smps)"
    using assms by (simp add: wide_def all_zero_def)
  from output_hops_zero_tails[OF _ this, of "[]" max_smp]
  have "output_hops input_block_size_samples max_smp [] tmpsmp
           = map (\<lambda>smps. take input_block_size_samples (scale_block max_smp smps)) tmpsmp" by simp
  then show ?thesis by (simp add: written_frames_def comp_def)
qed

theorem overlap_add_without_tails_witness:
  "output_hops 2 (7 / 10) [] [[[1], [2], [0], [0]], [[3], [4], [0], [0]]] = [[[1], [2]], [[3], [4]]]
   \<and> written_frames 2 (7 / 10) [[[1 / 2], [- 2], [0], [0]], [[3], [1 / 4], [0], [0]]]
        = [[16383, - 32767], [32767, 8191]]"
proof -
  have h1: "\<forall>smps\<in>set [[[1], [2], [0], [0]], [[3], [4], [0], [0::real]]].
              2 \<le> length smps \<and> (\<forall>row\<in>set smps. length row = 1)" by simp
  have h2: "\<forall>smps\<in>set [[[1], [2], [0], [0]], [[3], [4], [0], [0::real]]].
              \<forall>row\<in>set (drop 2 smps). \<forall>x\<in>set row. x = 0" by simp
  have g1: "\<forall>smps\<in>set [[[1 / 2], [- 2], [0], [0]], [[3], [1 / 4], [0], [0::real]]].
              2 \<le> length smps \<and> (\<forall>row\<in>set smps. length row = 1)" by simp
  have g2: "\<forall>smps\<in>set [[[1 / 2], [- 2], [0], [0]], [[3], [1 / 4], [0], [0::real]]].
              \<forall>row\<in>set (drop 2 smps). \<forall>x\<in>set row. x = 0" by simp
  have a: "output_hops 2 (7 / 10) [] [[[1], [2], [0], [0]], [[3], [4], [0], [0]]] = [[[1], [2]], [[3], [4]]]"
    using overlap_add_without_tails[OF h1 h2, of "7 / 10"] by (simp add: scale_block_def)
  have b: "written_frames 2 (7 / 10) [[[1 / 2], [- 2], [0], [0]], [[3], [1 / 4], [0], [0]]]
        = [[16383, - 32767], [32767, 8191]]"
    using overlap_add_without_tails[OF g1 g2, of "7 / 10"]
    by (simp add: scale_block_def output_buf_def to_int16_def clip_def)
  from a b show ?thesis by blast
qed

section \<open>Properties of the peak normalisation\<close>

lemma max_current_smp_bounds:
  assumes "smp \<noteq> []"
  shows "\<forall>x\<in>set smp. \<bar>x\<bar> \<le> max_current_smp smp"
    and "\<exists>x\<in>set smp. \<bar>x\<bar> = max_current_smp smp"
proof -
  have fin: "finite (set smp)" and ne: "set smp \<noteq> {}" using assms by simp_all
  show "\<forall>x\<in>set smp. \<bar>x\<bar> \<le> max_current_smp smp"
  proof
    fix x assume x: "x \<in> set smp"
    have "x \<le> Max (set smp)" "Min (set smp) \<le> x" using x fin by simp_all
    then show "\<bar>x\<bar> \<le> max_current_smp smp" by (simp add: max_current_smp_def abs_le_iff max_def)
  qed
  have a: "Max (set smp) \<in> set smp" and b: "Min (set smp) \<in> set smp"
    using fin ne by (simp_all add: Max_in Min_in)
  have le: "Min (set smp) \<le> Max (set smp)" using fin ne by (simp add: Min_le b)
  show "\<exists>x\<in>set smp. \<bar>x\<bar> = max_current_smp smp"
  proof (cases "- Min (set smp) \<le> Max (set smp)")
    case True
    then have "max_current_smp smp = Max (set smp)" by (simp add: max_current_smp_def)
    moreover have "0 \<le> Max (set smp)" using True le by linarith
    ultimately show ?thesis using a by (intro bexI[of _ "Max (set smp)"]) simp_all
  next
    case False
    then have "max_current_smp smp = - Min (set smp)" by (simp add: max_current_smp_def)
    moreover have "Min (set smp) \<le> 0" using False le by linarith
    ultimately show ?thesis using b by (intro bexI[of _ "Min (set smp)"]) simp_all
  qed
qed


lemma channel_fold_peak:
  assumes "\<forall>smp\<in>set chans. smp \<noteq> []"
  shows "p0 \<le> fold (\<lambda>smp max_smp. max (max_current_smp smp) max_smp) chans p0
       \<and> (\<forall>smp\<in>set chans. \<forall>x\<in>set smp. \<bar>x\<bar> \<le> fold (\<lambda>smp max_smp. max (max_current_smp smp) max_smp) chans p0)
       \<and> (fold (\<lambda>smp max_smp. max (max_current_smp smp) max_smp) chans p0 = p0
            \<or> (\<exists>smp\<in>set chans. \<exists>x\<in>set smp. \<bar>x\<bar> = fold (\<lambda>smp max_smp. max (max_current_smp smp) max_smp) chans p0))"
  using assms
proof (induction chans arbitrary: p0)
  case Nil
  show ?case by simp
next
  case (Cons smp chans)
  let ?p1 = "max (max_current_smp smp) p0"
  let ?R = "fold (\<lambda>smp max_smp. max (max_current_smp smp) max_smp) chans ?p1"
  have ne: "smp \<noteq> []" using Cons.prems by simp
  note b = max_current_smp_bounds[OF ne]
  from Cons.IH[of ?p1] Cons.prems
  have IH: "?p1 \<le> ?R" "\<forall>smp\<in>set chans. \<forall>x\<in>set smp. \<bar>x\<bar> \<le> ?R"
       "?R = ?p1 \<or> (\<exists>smp\<in>set chans. \<exists>x\<in>set smp. \<bar>x\<bar> = ?R)" by simp_all
  have 1: "p0 \<le> ?R" using IH(1) by simp
  have 2: "\<forall>s\<in>set (smp # chans). \<forall>x\<in>set s. \<bar>x\<bar> \<le> ?R"
    using IH(1,2) b(1) by (auto simp: max_def split: if_splits intro: order_trans)
  have 3: "?R = p0 \<or> (\<exists>s\<in>set (smp # chans). \<exists>x\<in>set s. \<bar>x\<bar> = ?R)"
    using IH(3) b(2) by (auto simp: max_def split: if_splits)
  from 1 2 3 show ?case by simp
qed

lemma track_peak_fold:
  assumes "\<forall>m\<in>set mixed. \<forall>smp\<in>set m. smp \<noteq> []"
  shows "p0 \<le> fold (\<lambda>m max_smp. fold (\<lambda>smp max_smp. max (max_current_smp smp) max_smp) m max_smp) mixed p0
       \<and> (\<forall>x\<in>samples_of mixed. \<bar>x\<bar> \<le> fold (\<lambda>m max_smp. fold (\<lambda>smp max_smp. max (max_current_smp smp) max_smp) m max_smp) mixed p0)
       \<and> (fold (\<lambda>m max_smp. fold (\<lambda>smp max_smp. max (max_current_smp smp) max_smp) m max_smp) mixed p0 = p0
            \<or> (\<exists>x\<in>samples_of mixed. \<bar>x\<bar> = fold (\<lambda>m max_smp. fold (\<lambda>smp max_smp. max (max_current_smp smp) max_smp) m max_smp) mixed p0))"
  using assms
proof (induction mixed arbitrary: p0)
  case Nil
  show ?case by (simp add: samples_of_def)
next
  case (Cons m mixed)
  let ?p1 = "fold (\<lambda>smp max_smp. max (max_current_smp smp) max_smp) m p0"
  let ?R = "fold (\<lambda>m max_smp. fold (\<lambda>smp max_smp. max (max_current_smp smp) max_smp) m max_smp) mixed ?p1"
  have "\<forall>smp\<in>set m. smp \<noteq> []" using Cons.prems by simp
  from channel_fold_peak[OF this, of p0]
  have c: "p0 \<le> ?p1" "\<forall>smp\<in>set m. \<forall>x\<in>set smp. \<bar>x\<bar> \<le> ?p1"
      "?p1 = p0 \<or> (\<exists>smp\<in>set m. \<exists>x\<in>set smp. \<bar>x\<bar> = ?p1)" by simp_all
  from Cons.IH[of ?p1] Cons.prems
  have IH: "?p1 \<le> ?R" "\<forall>x\<in>samples_of mixed. \<bar>x\<bar> \<le> ?R"
      "?R = ?p1 \<or> (\<exists>x\<in>samples_of mixed. \<bar>x\<bar> = ?R)" by simp_all
  have s: "samples_of (m # mixed) = (\<Union>smp\<in>set m. set smp) \<union> samples_of mixed"
    by (simp add: samples_of_def)
  have 1: "p0 \<le> ?R" using c(1) IH(1) by linarith
  have 2: "\<forall>x\<in>samples_of (m # mixed). \<bar>x\<bar> \<le> ?R"
    unfolding s using c(2) IH(1,2) by (auto intro: order_trans)
  have 3: "?R = p0 \<or> (\<exists>x\<in>samples_of (m # mixed). \<bar>x\<bar> = ?R)"
    unfolding s using c(3) IH(3) by auto
  from 1 2 3 show ?case by simp
qed

lemma track_peak_props:
  assumes "\<forall>m\<in>set mixed. \<forall>smp\<in>set m. smp \<noteq> []"
  shows "1 / 1000000 \<le> track_peak mixed"
    and "\<forall>x\<in>samples_of mixed. \<bar>x\<bar> \<le> track_peak mixed"
    and "track_peak mixed = 1 / 1000000 \<or> (\<exists>x\<in>samples_of mixed. \<bar>x\<bar> = track_peak mixed)"
  using track_peak_fold[OF assms, of "1 / 1000000"] unfolding track_peak_def by blast+

lemma to_int16_bound:
  assumes "\<bar>y\<bar> \<le> 7 / 10"
  shows "\<bar>to_int16 (clip y * 32767)\<bar> \<le> 22936"
proof -
  have c: "clip y = y" unfolding clip_def using assms by linarith
  have b: "\<bar>y * 32767\<bar> \<le> 229369 / 10" using assms by linarith
  show ?thesis
  proof (cases "0 \<le> y * 32767")
    case True
    then have f: "\<lfloor>y * 32767\<rfloor> \<le> 22936" "0 \<le> \<lfloor>y * 32767\<rfloor>" using b by (simp_all add: floor_le_iff)
    have "to_int16 (clip y * 32767) = \<lfloor>y * 32767\<rfloor>" using True by (simp only: to_int16_def c if_True)
    with f show ?thesis by linarith
  next
    case False
    then have f: "- 22936 \<le> \<lceil>y * 32767\<rceil>" "\<lceil>y * 32767\<rceil> \<le> 0" using b
      by (simp_all add: le_ceiling_iff ceiling_le_iff)
    have "to_int16 (clip y * 32767) = \<lceil>y * 32767\<rceil>" using False by (simp only: to_int16_def c if_False)
    with f show ?thesis by linarith
  qed
qed

lemma to_int16_peak:
  assumes "\<bar>y\<bar> = 7 / 10"
  shows "\<bar>to_int16 (clip y * 32767)\<bar> = 22936"
proof -
  from assms have "y = 7 / 10 \<or> y = - (7 / 10)" by linarith
  then show ?thesis
  proof
    assume y: "y = 7 / 10"
    show ?thesis unfolding y by (simp add: to_int16_def clip_def)
  next
    assume y: "y = - (7 / 10)"
    show ?thesis unfolding y by (simp add: to_int16_def clip_def)
  qed
qed

lemma dstack0_rows:
  assumes "m \<noteq> []" "\<forall>smp\<in>set m. length smp = L"
  shows "dstack0 m = map (\<lambda>t. map (\<lambda>smp. smp ! t) m) [0..<L]"
proof -
  have "transpose m = map (\<lambda>i. map (\<lambda>j. m ! j ! i) [0..<length m]) [0..<L]"
    using assms by (intro transpose_rectangle) simp_all
  moreover have "map (\<lambda>j. m ! j ! i) [0..<length m] = map (\<lambda>smp. smp ! i) m" for i
  proof -
    have "map (\<lambda>j. m ! j ! i) [0..<length m] = map (\<lambda>smp. smp ! i) (map (\<lambda>j. m ! j) [0..<length m])"
      by (simp add: comp_def)
    then show ?thesis by (simp only: map_nth)
  qed
  ultimately show ?thesis by (simp add: dstack0_def)
qed

lemma dstack0_shape:
  assumes "m \<noteq> []" "\<forall>smp\<in>set m. length smp = L"
  shows "length (dstack0 m) = L" and "wide (length m) (dstack0 m)"
  by (simp_all add: dstack0_rows[OF assms] wide_def)

lemma dstack0_zero_tail:
  assumes "m \<noteq> []" "\<forall>smp\<in>set m. length smp = L"
    and "\<forall>smp\<in>set m. \<forall>x\<in>set (drop ibs smp). x = 0"
  shows "all_zero (drop ibs (dstack0 m))"
proof -
  have "smp ! t = 0" if "smp \<in> set m" "ibs \<le> t" "t < L" for smp t
  proof -
    have "smp ! t = drop ibs smp ! (t - ibs)" using that assms(2) by simp
    moreover have "t - ibs < length (drop ibs smp)" using that assms(2) by simp
    ultimately have "smp ! t \<in> set (drop ibs smp)" by (metis nth_mem)
    with assms(3) that(1) show ?thesis by blast
  qed
  then show ?thesis
    by (auto simp: dstack0_rows[OF assms(1,2)] all_zero_def drop_map)
qed

lemma dstack0_head_samples:
  assumes "m \<noteq> []" "\<forall>smp\<in>set m. length smp = L" "ibs \<le> L"
  shows "set (concat (take ibs (dstack0 m))) = {smp ! t | smp t. smp \<in> set m \<and> t < ibs}"
proof -
  have "take ibs (dstack0 m) = map (\<lambda>t. map (\<lambda>smp. smp ! t) m) [0..<ibs]"
    using assms(3) by (simp add: dstack0_rows[OF assms(1,2)] take_map min_def)
  then show ?thesis by auto blast
qed

lemma output_buf_head_samples:
  "set (output_buf (take ibs (scale_block P a))) = quantised P ` set (concat (take ibs a))"
  by (auto simp: output_buf_def scale_block_def quantised_def take_map)

lemma written_samples_without_tails:
  assumes "1 \<le> nchannels" "ibs \<le> L"
    and "\<forall>m\<in>set mixed. length m = nchannels \<and> (\<forall>smp\<in>set m. length smp = L)"
    and "\<forall>m\<in>set mixed. \<forall>smp\<in>set m. \<forall>x\<in>set (drop ibs smp). x = 0"
  shows "set (concat (process_output ibs mixed))
           = quantised (track_peak mixed) ` {smp ! t | m smp t. m \<in> set mixed \<and> smp \<in> set m \<and> t < ibs}"
proof -
  let ?P = "track_peak mixed"
  have ne: "m \<noteq> []" if "m \<in> set mixed" for m using that assms(1,3) by fastforce
  have st: "\<forall>smps\<in>set (map dstack0 mixed). wide nchannels smps \<and> all_zero (drop ibs smps)"
  proof
    fix smps assume "smps \<in> set (map dstack0 mixed)"
    then obtain m where m: "m \<in> set mixed" and e: "smps = dstack0 m" by auto
    have len: "\<forall>smp\<in>set m. length smp = L" and nch: "length m = nchannels"
      using assms(3) m by blast+
    have z: "\<forall>smp\<in>set m. \<forall>x\<in>set (drop ibs smp). x = 0" using assms(4) m by blast
    have "wide (length m) (dstack0 m)" by (rule dstack0_shape(2)[OF ne[OF m] len])
    moreover have "all_zero (drop ibs (dstack0 m))" by (rule dstack0_zero_tail[OF ne[OF m] len z])
    ultimately show "wide nchannels smps \<and> all_zero (drop ibs smps)" unfolding e nch by blast
  qed
  have "output_hops ibs ?P [] (map dstack0 mixed)
          = map (\<lambda>smps. take ibs (scale_block ?P smps)) (map dstack0 mixed)"
    by (rule output_hops_zero_tails[OF _ st]) simp
  then have "process_output ibs mixed = map (\<lambda>m. output_buf (take ibs (scale_block ?P (dstack0 m)))) mixed"
    by (simp add: process_output_def written_frames_def comp_def)
  then have "set (concat (process_output ibs mixed))
               = (\<Union>m\<in>set mixed. quantised ?P ` set (concat (take ibs (dstack0 m))))"
    by (simp add: output_buf_head_samples)
  also have "\<dots> = (\<Union>m\<in>set mixed. quantised ?P ` {smp ! t | smp t. smp \<in> set m \<and> t < ibs})"
  proof (intro SUP_cong refl arg_cong[where f = "(`) (quantised ?P)"])
    fix m assume m: "m \<in> set mixed"
    then have "\<forall>smp\<in>set m. length smp = L" using assms(3) by blast
    from dstack0_head_samples[OF ne[OF m] this assms(2)]
    show "set (concat (take ibs (dstack0 m))) = {smp ! t | smp t. smp \<in> set m \<and> t < ibs}" .
  qed
  also have "\<dots> = quantised ?P ` {smp ! t | m smp t. m \<in> set mixed \<and> smp \<in> set m \<and> t < ibs}"
    by blast
  finally show ?thesis .
qed

text \<open>
  Claim C4, as amended. Every sample is multiplied by \<open>0.7 / max_smp\<close> before the
  overlap-add, then the sum is clipped to \<open>[-1, 1]\<close>, multiplied by 32767 and truncated.
  When every mixed vector is zero beyond its first \<open>input_block_size_samples\<close> samples
  (no tail is added to any hop) and the global peak exceeds the floor \<open>1e-6\<close>, the
  largest magnitude written is \<open>22936\<close>, the truncation of \<open>0.7 * 32767\<close>, which is
  within 1 of \<open>round (0.7 * 32767)\<close>, wherever the peak lies and whatever the other
  blocks hold. Samples are read as real numbers; \<open>0.7 * 32767 = 22936.9\<close> is far enough
  from an integer for the float32 rounding of the scaled sample not to change the result.
\<close>

theorem peak_maps_to_70_percent_without_overlap:
  assumes "1 \<le> nchannels" "input_block_size_samples \<le> L"
    and "\<forall>m\<in>set mixed. length m = nchannels \<and> (\<forall>smp\<in>set m. length smp = L)"
    and "\<forall>m\<in>set mixed. \<forall>smp\<in>set m. \<forall>x\<in>set (drop input_block_size_samples smp). x = 0"
    and "\<exists>x\<in>samples_of mixed. 1 / 1000000 < \<bar>x\<bar>"
  shows "Max (abs ` set (concat (process_output input_block_size_samples mixed))) = 22936
       \<and> \<bar>22936 - round (0.7 * 32767 :: real)\<bar> \<le> 1"
proof -
  let ?ibs = input_block_size_samples
  let ?P = "track_peak mixed"
  let ?H = "{smp ! t | m smp t. m \<in> set mixed \<and> smp \<in> set m \<and> t < ?ibs}"
  let ?W = "set (concat (process_output ?ibs mixed))"
  have W: "?W = quantised ?P ` ?H"
    by (rule written_samples_without_tails[OF assms(1-4)])
  from assms(5) obtain x0 where x0: "x0 \<in> samples_of mixed" "1 / 1000000 < \<bar>x0\<bar>" by blast
  from x0(1) obtain m0 smp0 where m0: "m0 \<in> set mixed" "smp0 \<in> set m0" "x0 \<in> set smp0"
    unfolding samples_of_def by blast
  have "length smp0 = L" using assms(3) m0(1,2) by blast
  moreover have "smp0 \<noteq> []" using m0(3) by auto
  ultimately have Lpos: "0 < L" by auto
  have nonempty: "\<forall>m\<in>set mixed. \<forall>smp\<in>set m. smp \<noteq> []"
  proof (intro ballI)
    fix m smp assume "m \<in> set mixed" "smp \<in> set m"
    then have "length smp = L" using assms(3) by blast
    with Lpos show "smp \<noteq> []" by auto
  qed
  note pk = track_peak_props[OF nonempty]
  have "\<bar>x0\<bar> \<le> ?P" using pk(2) x0(1) by blast
  with x0(2) have big: "1 / 1000000 < ?P" by linarith
  then have Ppos: "0 < ?P" by linarith
  have HS: "?H \<subseteq> samples_of mixed"
  proof
    fix x assume "x \<in> ?H"
    then obtain m smp t where m: "m \<in> set mixed" "smp \<in> set m" "t < ?ibs" "x = smp ! t" by blast
    have "length smp = L" using assms(3) m(1,2) by blast
    with m(3) assms(2) have "t < length smp" by linarith
    then have "x \<in> set smp" unfolding m(4) by (rule nth_mem)
    with m(1,2) show "x \<in> samples_of mixed" unfolding samples_of_def by blast
  qed
  have ratio: "\<bar>x * (0.7 / ?P)\<bar> = \<bar>x\<bar> / ?P * (7 / 10)" for x
    using Ppos by (simp add: abs_mult)
  have upper: "\<bar>w\<bar> \<le> 22936" if "w \<in> ?W" for w
  proof -
    from that W obtain x where x: "x \<in> ?H" "w = quantised ?P x" by blast
    then have "\<bar>x\<bar> \<le> ?P" using HS pk(2) by blast
    then have "\<bar>x\<bar> / ?P \<le> 1" using Ppos by simp
    then have "\<bar>x * (0.7 / ?P)\<bar> \<le> 7 / 10" unfolding ratio by simp
    then show ?thesis unfolding x(2) quantised_def by (rule to_int16_bound)
  qed
  from big have "?P \<noteq> 1 / 1000000" by linarith
  with pk(3) obtain xs where xs: "xs \<in> samples_of mixed" "\<bar>xs\<bar> = ?P" by blast
  from xs(1) obtain m smp where m: "m \<in> set mixed" "smp \<in> set m" "xs \<in> set smp"
    unfolding samples_of_def by blast
  then obtain t where t: "t < length smp" "xs = smp ! t" by (metis in_set_conv_nth)
  have "t < ?ibs"
  proof (rule ccontr)
    assume "\<not> t < ?ibs"
    then have "smp ! t = drop ?ibs smp ! (t - ?ibs)" "t - ?ibs < length (drop ?ibs smp)"
      using t(1) by simp_all
    then have "smp ! t \<in> set (drop ?ibs smp)" by (metis nth_mem)
    with assms(4) m have "xs = 0" unfolding t(2) by blast
    with xs(2) Ppos show False by simp
  qed
  with m t have inH: "xs \<in> ?H" by blast
  have "\<bar>xs * (0.7 / ?P)\<bar> = 7 / 10" unfolding ratio using xs(2) Ppos by simp
  then have "\<bar>quantised ?P xs\<bar> = 22936" unfolding quantised_def by (rule to_int16_peak)
  moreover have "quantised ?P xs \<in> ?W" unfolding W using inH by (rule imageI)
  ultimately have attained: "22936 \<in> abs ` ?W" by (metis imageI)
  have "Max (abs ` ?W) = 22936"
  proof (rule Max_eqI)
    show "finite (abs ` ?W)" by simp
    show "22936 \<in> abs ` ?W" by (rule attained)
    fix y assume "y \<in> abs ` ?W"
    then obtain w where "w \<in> ?W" "y = \<bar>w\<bar>" by blast
    with upper show "y \<le> 22936" by blast
  qed
  moreover have "\<bar>22936 - round (0.7 * 32767 :: real)\<bar> \<le> 1"
    by (simp add: round_def)
  ultimately show ?thesis by blast
qed

theorem peak_maps_to_70_percent_without_overlap_witness:
  "process_output 2 [[[1 / 2, 0, 0, 0]], [[0, - 2, 0, 0]]] = [[5734, 0], [0, - 22936]]
   \<and> Max (abs ` set (concat (process_output 2 [[[1 / 2, 0, 0, 0]], [[0, - 2, 0, 0]]]))) = 22936"
proof -
  have h1: "(1::nat) \<le> 1" by simp
  have h2: "(2::nat) \<le> 4" by simp
  have h3: "\<forall>m\<in>set [[[1 / 2, 0, 0, 0]], [[0, - 2, 0, 0::real]]].
              length m = 1 \<and> (\<forall>smp\<in>set m. length smp = 4)" by simp
  have h4: "\<forall>m\<in>set [[[1 / 2, 0, 0, 0]], [[0, - 2, 0, 0::real]]].
              \<forall>smp\<in>set m. \<forall>x\<in>set (drop 2 smp). x = 0" by simp
  have h5: "\<exists>x\<in>samples_of [[[1 / 2, 0, 0, 0]], [[0, - 2, 0, 0::real]]]. 1 / 1000000 < \<bar>x\<bar>"
    by (simp add: samples_of_def)
  have e: "process_output 2 [[[1 / 2, 0, 0, 0]], [[0, - 2, 0, 0]]] = [[5734, 0], [0, - 22936]]"
    by code_simp
  from peak_maps_to_70_percent_without_overlap[OF h1 h2 h3 h4 h5] e show ?thesis by blast
qed

text \<open>
  Claim C4 as stated fails: the peak is taken over the mixed blocks before the
  overlap-add, and a hop is the sum of a head and the tails of earlier blocks. Take
  blocks of two samples and seven mixed blocks, the block-wise autoconvolution of the
  four samples \<open>0, 1, 1, 1\<close>: the global peak is 2, reached in the blocks of index 1 and 2; the hop
  of index 2 adds the head \<open>1, 2\<close> of block 2 and the tail \<open>2, 0\<close> of block 1, which
  scaled by \<open>0.7 / 2\<close> gives \<open>1.05\<close>, clipped to 1 and written as 32767.
\<close>

theorem peak_maps_to_70_percent_counterexample:
  "track_peak [[[0, 0, 1, 0]], [[0, 2, 2, 0]], [[1, 2, 1, 0]], [[0, 0, 0, 0]],
               [[0, 0, 0, 0]], [[0, 0, 0, 0]], [[0, 0, 0, 0]]] = 2
   \<and> max_current_smp [1, 2, 1, 0] = 2
   \<and> process_output 2 [[[0, 0, 1, 0]], [[0, 2, 2, 0]], [[1, 2, 1, 0]], [[0, 0, 0, 0]],
                          [[0, 0, 0, 0]], [[0, 0, 0, 0]], [[0, 0, 0, 0]]]
       = [[0, 0], [11468, 22936], [32767, 22936], [11468, 0], [0, 0], [0, 0], [0, 0]]
   \<and> \<not> \<bar>Max (abs ` set (concat (process_output 2
           [[[0, 0, 1, 0]], [[0, 2, 2, 0]], [[1, 2, 1, 0]], [[0, 0, 0, 0]],
            [[0, 0, 0, 0]], [[0, 0, 0, 0]], [[0, 0, 0, 0]]]))) - round (0.7 * 32767 :: real)\<bar> \<le> 1"
proof -
  have a: "track_peak [[[0, 0, 1, 0]], [[0, 2, 2, 0]], [[1, 2, 1, 0]], [[0, 0, 0, 0]],
               [[0, 0, 0, 0]], [[0, 0, 0, 0]], [[0, 0, 0, 0]]] = 2"
    by (simp add: track_peak_def max_current_smp_def)
  have b: "max_current_smp [1, 2, 1, 0] = 2" by (simp add: max_current_smp_def)
  have c: "process_output 2 [[[0, 0, 1, 0]], [[0, 2, 2, 0]], [[1, 2, 1, 0]], [[0, 0, 0, 0]],
                          [[0, 0, 0, 0]], [[0, 0, 0, 0]], [[0, 0, 0, 0]]]
       = [[0, 0], [11468, 22936], [32767, 22936], [11468, 0], [0, 0], [0, 0], [0, 0]]"
    by code_simp
  have d: "round (0.7 * 32767 :: real) = 22937" by (simp add: round_def)
  show ?thesis unfolding c d using a b by simp
qed

end
